theory Spec2Isabelle
  imports Complex_Main
begin

section \<open>Machine integers\<close>

text \<open>
  Go's \<open>int\<close>, \<open>int64\<close> and \<open>time.Duration\<close> are 64-bit two's complement
  integers.  They are modelled as \<open>int\<close> with the wrap-around written out: every
  arithmetic result of the source passes through \<open>wrap64\<close>.
\<close>

definition wrap64 :: "int \<Rightarrow> int" where
  "wrap64 x = (x + 2 ^ 63) mod 2 ^ 64 - 2 ^ 63"

definition in_int64 :: "int \<Rightarrow> bool" where
  "in_int64 x \<longleftrightarrow> - (2 ^ 63) \<le> x \<and> x < 2 ^ 63"

section \<open>row.Stats and row.ActiveStats (row/row.go)\<close>

record Stats =
  Buffered :: int
  Pending :: int
  Committed :: int
  Failed :: int

definition Total :: "Stats \<Rightarrow> int" where
  "Total s = wrap64 (wrap64 (wrap64 (Buffered s + Pending s) + Committed s) + Failed s)"

text \<open>The lock and the log lines of the source have no effect on the counters.\<close>

definition MoveToPending :: "int \<Rightarrow> Stats \<Rightarrow> Stats" where
  "MoveToPending n s =
     s\<lparr>Buffered := wrap64 (Buffered s - n), Pending := wrap64 (Pending s + n)\<rparr>"

definition Inc :: "Stats \<Rightarrow> Stats" where
  "Inc s = s\<lparr>Buffered := wrap64 (Buffered s + 1)\<rparr>"

definition Done :: "int \<Rightarrow> 'e option \<Rightarrow> Stats \<Rightarrow> Stats" where
  "Done n err s =
     (let s1 = s\<lparr>Pending := wrap64 (Pending s - n)\<rparr>
      in if err \<noteq> None then s1\<lparr>Failed := wrap64 (Failed s1 + n)\<rparr>
         else s1\<lparr>Committed := wrap64 (Committed s1 + n)\<rparr>)"

datatype 'e stats_call = CallInc | CallMoveToPending int | CallDone int "'e option"

fun stats_step :: "'e stats_call \<Rightarrow> Stats \<Rightarrow> Stats" where
  "stats_step CallInc s = Inc s"
| "stats_step (CallMoveToPending n) s = MoveToPending n s"
| "stats_step (CallDone n err) s = Done n err s"

fun stats_run :: "Stats \<Rightarrow> 'e stats_call list \<Rightarrow> Stats" where
  "stats_run s [] = s"
| "stats_run s (c # cs) = stats_run (stats_step c s) cs"

text \<open>
  The methods take any \<open>int\<close> and check neither its sign nor the counter.  A call that
  moves rows really moves a number of rows that is not negative and that the counter it
  takes them from holds: \<open>MoveToPending n\<close> with \<open>0 \<le> n \<le> Buffered\<close>, \<open>Done n err\<close>
  with \<open>0 \<le> n \<le> Pending\<close>.
\<close>

fun legal_call :: "Stats \<Rightarrow> 'e stats_call \<Rightarrow> bool" where
  "legal_call s CallInc = True"
| "legal_call s (CallMoveToPending n) = (0 \<le> n \<and> n \<le> Buffered s)"
| "legal_call s (CallDone n err) = (0 \<le> n \<and> n \<le> Pending s)"

fun legal_calls :: "Stats \<Rightarrow> 'e stats_call list \<Rightarrow> bool" where
  "legal_calls s [] = True"
| "legal_calls s (c # cs) = (legal_call s c \<and> legal_calls (stats_step c s) cs)"

definition non_negative :: "Stats \<Rightarrow> bool" where
  "non_negative s \<longleftrightarrow> 0 \<le> Buffered s \<and> 0 \<le> Pending s \<and> 0 \<le> Committed s \<and> 0 \<le> Failed s"

definition zero_stats :: Stats where
  "zero_stats = \<lparr>Buffered = 0, Pending = 0, Committed = 0, Failed = 0\<rparr>"

text \<open>The counters are non-negative and their sum is at most \<open>k\<close>, which fits an \<open>int\<close>.\<close>

definition stats_inv :: "Stats \<Rightarrow> int \<Rightarrow> bool" where
  "stats_inv s k \<longleftrightarrow>
     non_negative s \<and> Buffered s + Pending s + Committed s + Failed s \<le> k \<and> k < 2 ^ 63"

section \<open>row.Buffer (row/row.go)\<close>

record 'a Buffer =
  size_buf :: int
  rows :: "'a list"

text \<open>\<open>make([]interface{}, 0, size)\<close> panics on a negative capacity.\<close>

definition NewBuffer :: "int \<Rightarrow> 'a Buffer option" where
  "NewBuffer sz = (if sz < 0 then None else Some \<lparr>size_buf = sz, rows = []\<rparr>)"

text \<open>The result \<open>None\<close> is Go's \<open>nil\<close> slice.\<close>

definition Append :: "'a \<Rightarrow> 'a Buffer \<Rightarrow> 'a list option \<times> 'a Buffer" where
  "Append row buf =
     (if int (length (rows buf)) < size_buf buf
      then (None, buf\<lparr>rows := rows buf @ [row]\<rparr>)
      else (Some (rows buf), buf\<lparr>rows := [row]\<rparr>))"

definition Reset :: "'a Buffer \<Rightarrow> 'a list \<times> 'a Buffer" where
  "Reset buf = (rows buf, buf\<lparr>rows := []\<rparr>)"

fun append_all :: "'a Buffer \<Rightarrow> 'a list \<Rightarrow> 'a list option list \<times> 'a Buffer" where
  "append_all buf [] = ([], buf)"
| "append_all buf (r # rs) =
     (case Append r buf of (out, buf') \<Rightarrow>
        (case append_all buf' rs of (outs, buf'') \<Rightarrow> (out # outs, buf'')))"

fun batch :: "'a list option \<Rightarrow> 'a list" where
  "batch None = []"
| "batch (Some b) = b"

text \<open>The buffer holds at most \<open>m\<close> rows, for a bound \<open>m\<close> of at least 1 and of at least its size.\<close>

definition bounded_rows :: "int \<Rightarrow> 'a Buffer \<Rightarrow> bool" where
  "bounded_rows m buf \<longleftrightarrow> size_buf buf \<le> m \<and> 1 \<le> m \<and> int (length (rows buf)) \<le> m"

section \<open>ParseKHeader (sidestream parser)\<close>

datatype panic = IndexOutOfRange nat nat | PanicMessage string

text \<open>\<open>strings.Split(s, " ")\<close>: the pieces of \<open>s\<close> between the separators, never empty.\<close>

fun Split :: "string \<Rightarrow> char \<Rightarrow> string list" where
  "Split [] sep = [[]]"
| "Split (x # xs) sep =
     (if x = sep then [] # Split xs sep
      else (case Split xs sep of [] \<Rightarrow> [[x]] | w # ws \<Rightarrow> (x # w) # ws))"

text \<open>The indexed assignment \<open>xs[i] = v\<close> of a slice panics outside its length.\<close>

definition slice_store :: "'a list \<Rightarrow> nat \<Rightarrow> 'a \<Rightarrow> panic + 'a list" where
  "slice_store xs i v =
     (if i < length xs then Inr (xs[i := v]) else Inl (IndexOutOfRange i (length xs)))"

text \<open>
  The body of \<open>for index, name := range web100_vars\<close>, on the pairs of index and name
  that remain, with the current \<open>var_names\<close>.
\<close>

fun ParseKHeader_loop ::
  "(string \<Rightarrow> string) \<Rightarrow> (nat \<times> string) list \<Rightarrow> string list \<Rightarrow> panic + string list" where
  "ParseKHeader_loop mapping [] var_names = Inr var_names"
| "ParseKHeader_loop mapping ((index, name) # rest) var_names =
     (if index = 0 then ParseKHeader_loop mapping rest var_names
      else (case slice_store var_names (index - 1) name of
              Inl p \<Rightarrow> Inl p
            | Inr var_names1 \<Rightarrow>
                (if mapping name \<noteq> []
                 then (case slice_store var_names1 (index - 1) (mapping name) of
                         Inl p \<Rightarrow> Inl p
                       | Inr var_names2 \<Rightarrow> ParseKHeader_loop mapping rest var_names2)
                 else ParseKHeader_loop mapping rest var_names1)))"

text \<open>
  \<open>web100.Asset\<close> and \<open>web100.ParseWeb100Definitions\<close> are parameters: \<open>asset\<close>
  gives the file's data or \<open>None\<close> for an error, \<open>definitions\<close> the mapping read from
  the data, with the empty string for a name it does not hold.  The result is the panic,
  or the returned slice and error.
\<close>

definition ParseKHeader ::
  "(string \<Rightarrow> 'd option) \<Rightarrow> ('d \<Rightarrow> string \<Rightarrow> string) \<Rightarrow> string
     \<Rightarrow> panic + (string list \<times> string option)" where
  "ParseKHeader asset definitions header =
     (let var_names = [];
          web100_vars = Split header (CHR '' '')
      in case web100_vars of
           [] \<Rightarrow> Inl (IndexOutOfRange 0 0)
         | v0 # _ \<Rightarrow>
             if v0 \<noteq> ''K:'' then Inr (var_names, Some ''Corrupted header'')
             else (case asset ''tcp-kis.txt'' of
                     None \<Rightarrow> Inl (PanicMessage ''tcp-kis.txt not found'')
                   | Some data \<Rightarrow>
                       (case ParseKHeader_loop (definitions data) (enumerate 0 web100_vars) var_names of
                          Inl p \<Rightarrow> Inl p
                        | Inr names \<Rightarrow> Inr (names, None))))"

section \<open>Switch parser: getSummaryFromSample (parser/switch.go)\<close>

text \<open>\<open>civil.Date\<close> and its comparisons, as package \<open>cloud.google.com/go/civil\<close> has them.\<close>

record Date =
  Year :: int
  Month :: int
  Day :: int

definition Before :: "Date \<Rightarrow> Date \<Rightarrow> bool" where
  "Before d1 d2 =
     (if Year d1 \<noteq> Year d2 then Year d1 < Year d2
      else if Month d1 \<noteq> Month d2 then Month d1 < Month d2
      else Day d1 < Day d2)"

definition After :: "Date \<Rightarrow> Date \<Rightarrow> bool" where
  "After d1 d2 = Before d2 d1"

definition discoV2DeploymentDate :: Date where
  "discoV2DeploymentDate = \<lparr>Year = 2020, Month = 9, Day = 9\<rparr>"

definition discoV2FixDate :: Date where
  "discoV2FixDate = \<lparr>Year = 2022, Month = 1, Day = 19\<rparr>"

text \<open>
  \<open>schema.Sample\<close>: the finite value of the float field is a rational number.  Go's
  conversion \<open>int64(v)\<close> discards the fraction; outside the range of \<open>int64\<close> its result
  depends on the implementation and is the parameter \<open>oob\<close>.
\<close>

record Sample =
  Timestamp :: int
  Value :: rat
  Counter :: int

definition truncate_rat :: "rat \<Rightarrow> int" where
  "truncate_rat v = (if 0 \<le> v then \<lfloor>v\<rfloor> else - \<lfloor>- v\<rfloor>)"

definition float_to_int64 :: "(rat \<Rightarrow> int) \<Rightarrow> rat \<Rightarrow> int" where
  "float_to_int64 oob v = (if in_int64 (truncate_rat v) then truncate_rat v else oob v)"

text \<open>
  The summary struct \<open>row.A\<close> is seen through reflection: a map from the names of its
  integer fields to their values; \<open>FieldByName\<close> is valid on the names the map holds.
  \<open>strcase.ToCamel\<close> is the parameter \<open>ToCamel\<close>.
\<close>

type_synonym SwitchSummary = "string \<rightharpoonup> int"

definition getSummaryFromSample ::
  "(string \<Rightarrow> string) \<Rightarrow> (rat \<Rightarrow> int) \<Rightarrow> string \<Rightarrow> Sample \<Rightarrow> SwitchSummary \<Rightarrow> Date
     \<Rightarrow> SwitchSummary" where
  "getSummaryFromSample ToCamel oob metric sample A archiveDate =
     (let delta = ToCamel metric;
          counter = delta @ ''Counter''
      in if A delta = None \<or> A counter = None then A
         else if (metric = ''switch.octets.local.tx'' \<or> metric = ''switch.octets.local.rx'')
                 \<and> After archiveDate discoV2DeploymentDate
                 \<and> Before archiveDate discoV2FixDate
         then (A(delta \<mapsto> 0))(counter \<mapsto> 0)
         else (A(delta \<mapsto> float_to_int64 oob (Value sample)))(counter \<mapsto> Counter sample))"

text \<open>A calendar date as the number \<open>YYYYMMDD\<close>.\<close>

definition valid_date :: "Date \<Rightarrow> bool" where
  "valid_date d \<longleftrightarrow> 1 \<le> Month d \<and> Month d \<le> 12 \<and> 1 \<le> Day d \<and> Day d \<le> 31"

definition yyyymmdd :: "Date \<Rightarrow> int" where
  "yyyymmdd d = Year d * 10000 + Month d * 100 + Day d"

section \<open>Archive source: nextHeader, nextData, NextTest (storage package)\<close>

text \<open>
  Errors are values: \<open>io.EOF\<close>, \<open>ErrOversizeFile\<close>, and any other error with its
  message.  \<open>Error\<close> is the method \<open>err.Error()\<close>.
\<close>

datatype error = EOF | ErrOversizeFile | Err string

fun Error :: "error \<Rightarrow> string" where
  "Error EOF = ''EOF''"
| "Error ErrOversizeFile = ''Oversize file''"
| "Error (Err msg) = msg"

fun Contains :: "string \<Rightarrow> string \<Rightarrow> bool" where
  "Contains [] substr = (substr = [])"
| "Contains (x # xs) substr = (take (length substr) (x # xs) = substr \<or> Contains xs substr)"

definition HasSuffix :: "string \<Rightarrow> string \<Rightarrow> bool" where
  "HasSuffix s suff \<longleftrightarrow> length suff \<le> length s \<and> drop (length s - length suff) s = suff"

text \<open>\<open>strings.ToLower\<close> on the ASCII letters, which decide a suffix \<open>gz\<close>.\<close>

definition lower_char :: "char \<Rightarrow> char" where
  "lower_char c =
     (if 65 \<le> (of_char c :: nat) \<and> (of_char c :: nat) \<le> 90 then char_of (of_char c + 32 :: nat) else c)"

definition ToLower :: "string \<Rightarrow> string" where
  "ToLower s = map lower_char s"

record Header =
  Name :: string
  Size :: int
  Typeflag :: char

definition TypeReg :: char where
  "TypeReg = CHR ''0''"

text \<open>
  \<open>ETLSource\<close>.  The embedded \<open>TarReader\<close> and the gzip reader opened on it are
  seen through what their calls return: \<open>Next k\<close> is the result of the \<open>k\<close>-th call of
  \<open>Next()\<close> (a header or an error), \<open>NewReader k\<close> the error of the \<open>k\<close>-th
  \<open>gzip.NewReader(rr)\<close>, if any, and \<open>ReadAll k\<close> the data and the error of the
  \<open>k\<close>-th \<open>ioutil.ReadAll\<close>, counting from 0.
\<close>

record ETLSource =
  Next :: "nat \<Rightarrow> error + Header"
  NewReader :: "nat \<Rightarrow> error option"
  ReadAll :: "nat \<Rightarrow> string \<times> error option"
  RetryBaseTime :: int
  TableBase :: string

text \<open>
  What the calls leave behind: how many calls each reader operation has had, the
  durations passed to \<open>time.Sleep\<close> in nanoseconds, oldest first, and the label tuples
  with which \<open>metrics.GCSRetryCount\<close> was incremented (the trial as a number).
\<close>

record World =
  next_calls :: nat
  newreader_calls :: nat
  readall_calls :: nat
  status_calls :: nat
  sleeps :: "int list"
  GCSRetryCount :: "(string \<times> string \<times> nat \<times> string) list"

definition Sleep :: "int \<Rightarrow> World \<Rightarrow> World" where
  "Sleep d w = w\<lparr>sleeps := sleeps w @ [d]\<rparr>"

definition GCSRetryCount_Inc :: "string \<times> string \<times> nat \<times> string \<Rightarrow> World \<Rightarrow> World" where
  "GCSRetryCount_Inc labels w = w\<lparr>GCSRetryCount := GCSRetryCount w @ [labels]\<rparr>"

definition nextHeader ::
  "ETLSource \<Rightarrow> nat \<Rightarrow> World \<Rightarrow> (Header option \<times> bool \<times> error option) \<times> World" where
  "nextHeader rr trial w =
     (let w1 = w\<lparr>next_calls := Suc (next_calls w)\<rparr>
      in case Next rr (next_calls w) of
           Inr h \<Rightarrow> ((Some h, True, None), w1)
         | Inl err \<Rightarrow>
             if err = EOF then ((None, False, Some err), w1)
             else if Contains (Error err) ''unexpected EOF''
             then ((None, True, Some err),
                   GCSRetryCount_Inc (TableBase rr, ''next'', trial, ''unexpected EOF'') w1)
             else ((None, True, Some err),
                   GCSRetryCount_Inc (TableBase rr, ''next'', trial, ''other'') w1))"

text \<open>The part of \<open>nextData\<close> after the choice of the reader: \<open>ReadAll\<close> and its error check.\<close>

definition nextData_read ::
  "ETLSource \<Rightarrow> string \<Rightarrow> nat \<Rightarrow> World \<Rightarrow> (string option \<times> bool \<times> error option) \<times> World" where
  "nextData_read rr phase trial w =
     (let w1 = w\<lparr>readall_calls := Suc (readall_calls w)\<rparr>
      in case ReadAll rr (readall_calls w) of
           (data, Some err) \<Rightarrow>
             if Contains (Error err) ''stream error''
             then ((None, True, Some err),
                   GCSRetryCount_Inc (TableBase rr, phase, trial, ''stream error'') w1)
             else ((None, True, Some err),
                   GCSRetryCount_Inc (TableBase rr, phase, trial, ''other error'') w1)
         | (data, None) \<Rightarrow> ((Some data, False, None), w1))"

definition nextData ::
  "ETLSource \<Rightarrow> Header \<Rightarrow> nat \<Rightarrow> World \<Rightarrow> (string option \<times> bool \<times> error option) \<times> World" where
  "nextData rr h trial w =
     (if HasSuffix (ToLower (Name h)) ''gz''
      then (let w1 = w\<lparr>newreader_calls := Suc (newreader_calls w)\<rparr>
            in case NewReader rr (newreader_calls w) of
                 Some err \<Rightarrow>
                   if err = EOF then ((None, False, Some err), w1)
                   else ((None, True, Some err),
                         GCSRetryCount_Inc (TableBase rr, ''open zip'', trial, ''zipReaderError'') w1)
               | None \<Rightarrow> nextData_read rr ''read zip'' trial w1)
      else nextData_read rr ''read'' trial w)"

text \<open>
  The first \<open>for\<close> loop of \<open>NextTest\<close>; \<open>trial\<close> is the counter before its increment.
  The result is the error the loop returns with, or the header it breaks with.
\<close>

function NextTest_header_loop ::
  "ETLSource \<Rightarrow> nat \<Rightarrow> int \<Rightarrow> World \<Rightarrow> (error + Header option) \<times> World" where
  "NextTest_header_loop rr trial delay w =
     (case nextHeader rr (Suc trial) w of
        ((h, retry, err), w1) \<Rightarrow>
          (case err of
             None \<Rightarrow> (Inr h, w1)
           | Some e \<Rightarrow>
               if \<not> retry \<or> Suc trial \<ge> 10 then (Inl e, w1)
               else NextTest_header_loop rr (Suc trial) (wrap64 (delay * 2))
                      (Sleep (wrap64 (delay * 2)) w1)))"
  by pat_completeness auto
termination
  by (relation "measure (\<lambda>(rr, trial, delay, w). 10 - trial)") auto

text \<open>The second \<open>for\<close> loop; its result is \<open>data\<close> and \<open>err\<close> at the \<open>break\<close>.\<close>

function NextTest_data_loop ::
  "ETLSource \<Rightarrow> Header \<Rightarrow> nat \<Rightarrow> int \<Rightarrow> World \<Rightarrow> (string option \<times> error option) \<times> World" where
  "NextTest_data_loop rr h trial delay w =
     (case nextData rr h (Suc trial) w of
        ((data, retry, err), w1) \<Rightarrow>
          (case err of
             None \<Rightarrow> ((data, err), w1)
           | Some e \<Rightarrow>
               if \<not> retry \<or> Suc trial \<ge> 10 then ((data, err), w1)
               else NextTest_data_loop rr h (Suc trial) (wrap64 (delay * 2))
                      (Sleep (wrap64 (delay * 2)) w1)))"
  by pat_completeness auto
termination
  by (relation "measure (\<lambda>(rr, h, trial, delay, w). 10 - trial)") auto

declare NextTest_header_loop.simps [simp del] NextTest_data_loop.simps [simp del]

text \<open>
  \<open>NextTest\<close> returns name, data (\<open>None\<close> is \<open>nil\<close>) and error.  A nil header without an
  error, which \<open>Next\<close> does not produce, would panic at \<open>h.Size\<close>.
\<close>

definition NextTest ::
  "ETLSource \<Rightarrow> int \<Rightarrow> World \<Rightarrow> (string \<times> string option \<times> error option) option \<times> World" where
  "NextTest rr maxSize w =
     (case NextTest_header_loop rr 0 (RetryBaseTime rr) w of
        (Inl err, w1) \<Rightarrow> (Some ('''', None, Some err), w1)
      | (Inr None, w1) \<Rightarrow> (None, w1)
      | (Inr (Some h), w1) \<Rightarrow>
          if Size h > maxSize then (Some (Name h, None, Some ErrOversizeFile), w1)
          else if Typeflag h \<noteq> TypeReg then (Some (Name h, None, None), w1)
          else (case NextTest_data_loop rr h 0 (RetryBaseTime rr) w1 of
                  ((data, err), w2) \<Rightarrow> (Some (Name h, data, None), w2)))"

definition new_world :: World where
  "new_world = \<lparr>next_calls = 0, newreader_calls = 0, readall_calls = 0, status_calls = 0,
                 sleeps = [], GCSRetryCount = []\<rparr>"

text \<open>The delays \<open>2 d, 4 d, \<dots>, 2\<^sup>k d\<close> in 64-bit arithmetic.\<close>

definition doubling :: "int \<Rightarrow> nat \<Rightarrow> int list" where
  "doubling d k = map (\<lambda>j. wrap64 (d * 2 ^ Suc j)) [0..<k]"

text \<open>The reader call that every attempt of \<open>nextData\<close> on the entry \<open>h\<close> makes first.\<close>

definition body_calls :: "Header \<Rightarrow> World \<Rightarrow> nat" where
  "body_calls h w =
     (if HasSuffix (ToLower (Name h)) ''gz'' then newreader_calls w else readall_calls w)"

text \<open>
  Sources for concrete runs, with the default base time of 16 ms.  In the first, the
  first \<open>Next()\<close> fails with the message of \<open>io.ErrUnexpectedEOF\<close> and later calls
  give a regular file.  In the second, every read of the body fails with a stream error.
  In the third, the entry is gzipped and opening it gives \<open>io.EOF\<close>.  In the fourth,
  the header and the body fail once each on a stream error.
\<close>

definition text_header :: Header where
  "text_header = \<lparr>Name = ''a.txt'', Size = 3, Typeflag = CHR ''0''\<rparr>"

definition source_unexpected_EOF :: ETLSource where
  "source_unexpected_EOF =
     \<lparr>Next = (\<lambda>k. if k = 0 then Inl (Err ''unexpected EOF'') else Inr text_header),
      NewReader = (\<lambda>k. None), ReadAll = (\<lambda>k. (''abc'', None)),
      RetryBaseTime = 16000000, TableBase = ''invalid''\<rparr>"

definition source_body_stream_error :: ETLSource where
  "source_body_stream_error =
     \<lparr>Next = (\<lambda>k. Inr text_header),
      NewReader = (\<lambda>k. None),
      ReadAll = (\<lambda>k. ([], Some (Err ''stream error: stream ID 3; INTERNAL_ERROR''))),
      RetryBaseTime = 16000000, TableBase = ''invalid''\<rparr>"

definition source_zip_EOF :: ETLSource where
  "source_zip_EOF =
     \<lparr>Next = (\<lambda>k. Inr \<lparr>Name = ''a.json.gz'', Size = 3, Typeflag = CHR ''0''\<rparr>),
      NewReader = (\<lambda>k. Some EOF), ReadAll = (\<lambda>k. (''abc'', None)),
      RetryBaseTime = 16000000, TableBase = ''invalid''\<rparr>"

definition source_fail_once :: ETLSource where
  "source_fail_once =
     \<lparr>Next = (\<lambda>k. if k = 0 then Inl (Err ''stream error'') else Inr text_header),
      NewReader = (\<lambda>k. None),
      ReadAll = (\<lambda>k. if k = 0 then ([], Some (Err ''stream error'')) else (''abc'', None)),
      RetryBaseTime = 16000000, TableBase = ''invalid''\<rparr>"

section \<open>Dedup: WaitForJob (dedup package)\<close>

text \<open>
  What one \<open>job.Status(ctx)\<close> gives: an error of the call itself, a job that is not done,
  or a done job without or with an error.  The job is seen through the results of its
  successive polls, counted from 0.
\<close>

datatype JobStatus = StatusError error | Running | DoneOK | DoneError error

definition Millisecond :: int where
  "Millisecond = 1000000"

text \<open>
  The \<open>for\<close> loop of \<open>WaitForJob\<close>.  The job may never be done, so the loop has fuel:
  the result \<open>None\<close> says that it has not returned after that many polls, \<open>Some err\<close>
  is the returned error.
\<close>

fun WaitForJob_loop ::
  "nat \<Rightarrow> (nat \<Rightarrow> JobStatus) \<Rightarrow> int \<Rightarrow> int \<Rightarrow> int \<Rightarrow> World \<Rightarrow> error option option \<times> World" where
  "WaitForJob_loop 0 job maxBackoff backoff previous w = (None, w)"
| "WaitForJob_loop (Suc fuel) job maxBackoff backoff previous w =
     (let w1 = w\<lparr>status_calls := Suc (status_calls w)\<rparr>
      in case job (status_calls w) of
           StatusError err \<Rightarrow> (Some (Some err), w1)
         | DoneError err \<Rightarrow> (Some (Some err), w1)
         | DoneOK \<Rightarrow> (Some None, w1)
         | Running \<Rightarrow>
             if backoff < maxBackoff
             then WaitForJob_loop fuel job maxBackoff (wrap64 (backoff + previous)) backoff
                    (Sleep (wrap64 (backoff + previous)) w1)
             else WaitForJob_loop fuel job maxBackoff backoff previous (Sleep backoff w1))"

definition WaitForJob ::
  "nat \<Rightarrow> (nat \<Rightarrow> JobStatus) \<Rightarrow> int \<Rightarrow> World \<Rightarrow> error option option \<times> World" where
  "WaitForJob fuel job maxBackoff w =
     WaitForJob_loop fuel job maxBackoff (wrap64 (10 * Millisecond)) (wrap64 (10 * Millisecond)) w"

text \<open>
  The sequence 10 ms, 10 ms, 20 ms, 30 ms, 50 ms, \<dots> in nanoseconds, each term the sum
  of the two before it, from any two first terms.
\<close>

fun fibonacci_from :: "int \<Rightarrow> int \<Rightarrow> nat \<Rightarrow> int" where
  "fibonacci_from p b 0 = p"
| "fibonacci_from p b (Suc 0) = b"
| "fibonacci_from p b (Suc (Suc n)) = fibonacci_from p b (Suc n) + fibonacci_from p b n"

definition fibonacci_delay :: "nat \<Rightarrow> int" where
  "fibonacci_delay n = fibonacci_from (10 * Millisecond) (10 * Millisecond) n"

text \<open>A job that is done, without an error, at its poll number \<open>n\<close>.\<close>

definition job_done_at :: "nat \<Rightarrow> nat \<Rightarrow> JobStatus" where
  "job_done_at n k = (if k < n then Running else DoneOK)"

text \<open>
  The delays \<open>sl\<close> of a run that starts with the given \<open>previous\<close> and \<open>backoff\<close>:
  while the term before is below \<open>maxBackoff\<close> the delay is the next term of the
  sequence, afterwards it repeats the delay before it; no delay reaches twice
  \<open>maxBackoff\<close>.
\<close>

definition backoff_delays :: "int \<Rightarrow> int \<Rightarrow> int \<Rightarrow> int list \<Rightarrow> bool" where
  "backoff_delays previous backoff maxBackoff sl \<longleftrightarrow>
     (\<forall>i < length sl.
        (fibonacci_from previous backoff (Suc i) < maxBackoff
           \<longrightarrow> sl ! i = fibonacci_from previous backoff (Suc (Suc i)))
      \<and> (maxBackoff \<le> fibonacci_from previous backoff (Suc i)
           \<longrightarrow> sl ! i = (if i = 0 then backoff else sl ! (i - 1)))
      \<and> backoff \<le> sl ! i \<and> sl ! i < 2 * maxBackoff)"

text \<open>The error that \<open>WaitForJob\<close> returns at a poll that ends the wait.\<close>

fun job_error :: "JobStatus \<Rightarrow> error option" where
  "job_error (StatusError err) = Some err"
| "job_error (DoneError err) = Some err"
| "job_error DoneOK = None"
| "job_error Running = None"

text \<open>
  How the polls of a run from the world \<open>w\<close> to the world \<open>w'\<close> with the result \<open>r\<close>
  lie around its \<open>n\<close> sleeps: the first \<open>n\<close> polls find the job running; a run that
  returns has made one more poll, which does not find the job running and whose error it
  returns; a run that has not returned has used all its fuel on these \<open>n\<close> polls.
\<close>

definition polled ::
  "nat \<Rightarrow> (nat \<Rightarrow> JobStatus) \<Rightarrow> World \<Rightarrow> error option option \<Rightarrow> World \<Rightarrow> nat \<Rightarrow> bool" where
  "polled fuel job w r w' n \<longleftrightarrow>
     (\<forall>i < n. job (status_calls w + i) = Running)
     \<and> (r = None \<longrightarrow> n = fuel \<and> status_calls w' = status_calls w + n)
     \<and> (\<forall>err. r = Some err \<longrightarrow>
           n < fuel \<and> status_calls w' = status_calls w + n + 1
           \<and> job (status_calls w + n) \<noteq> Running
           \<and> err = job_error (job (status_calls w + n)))"

section \<open>Dedup: checkDetails (dedup package)\<close>

record Detail =
  PartitionID :: string
  TaskFileCount :: int
  TestCount :: int

datatype dedup_error = ErrTooFewTasks | ErrTooFewTests

text \<open>
  \<open>float32\<close> is IEEE 754 binary32: 24 significant bits, results rounded to the nearest
  value, ties to the even one.  \<open>round24 n\<close> is that rounding of a natural number (of
  any number scaled by a power of two, away from the subnormal range and from
  overflow, where the counts of a table and their products with a constant below 1
  stay).
\<close>

fun bit_length :: "nat \<Rightarrow> nat" where
  "bit_length n = (if n = 0 then 0 else Suc (bit_length (n div 2)))"

declare bit_length.simps [simp del]

definition round24 :: "nat \<Rightarrow> nat" where
  "round24 n =
     (if n < 2 ^ 24 then n
      else (let sh = bit_length n - 24;
                q = n div 2 ^ sh;
                r = n mod 2 ^ sh;
                half = 2 ^ (sh - 1)
            in (if half < r \<or> (r = half \<and> odd q) then q + 1 else q) * 2 ^ sh))"

text \<open>The conversion \<open>float32(i)\<close> of an \<open>int\<close>; its value is an integer.\<close>

definition float32_of_int :: "int \<Rightarrow> int" where
  "float32_of_int i = sgn i * int (round24 (nat \<bar>i\<bar>))"

text \<open>
  The \<open>float32\<close> constants \<open>0.99\<close> and \<open>0.95\<close> are \<open>16609444 / 2\<^sup>2\<^sup>4\<close> and
  \<open>15938355 / 2\<^sup>2\<^sup>4\<close>.  The product of the constant \<open>c / 2\<^sup>2\<^sup>4\<close> and the \<open>float32\<close>
  of integer value \<open>f\<close>, rounded, in units of \<open>2\<^sup>-\<^sup>2\<^sup>4\<close>.
\<close>

definition float32_0_99 :: nat where
  "float32_0_99 = 16609444"

definition float32_0_95 :: nat where
  "float32_0_95 = 15938355"

definition float32_times :: "nat \<Rightarrow> int \<Rightarrow> int" where
  "float32_times c f = sgn f * int (round24 (c * nat \<bar>f\<bar>))"

text \<open>\<open>float32(a) < c * float32(b)\<close>, both sides in units of \<open>2\<^sup>-\<^sup>2\<^sup>4\<close>.\<close>

definition float32_less_times :: "int \<Rightarrow> nat \<Rightarrow> int \<Rightarrow> bool" where
  "float32_less_times a c b \<longleftrightarrow> float32_of_int a * 2 ^ 24 < float32_times c (float32_of_int b)"

text \<open>The result \<open>None\<close> is the nil error; the warnings are log lines only.\<close>

definition checkDetails :: "Detail \<Rightarrow> Detail \<Rightarrow> dedup_error option" where
  "checkDetails srcDetail destDetail =
     (if float32_less_times (TaskFileCount srcDetail) float32_0_99 (TaskFileCount destDetail)
      then Some ErrTooFewTasks
      else if float32_less_times (TestCount srcDetail) float32_0_95 (TestCount destDetail)
      then Some ErrTooFewTests
      else None)"

section \<open>Path classifier: TaskPattern and ValidateTestPath (etl/globals.go)\<close>

text \<open>
  A Go string is a sequence of bytes, and the \<open>regexp\<close> package reads it as UTF-8, one
  rune at a time: a character class, \<open>.\<close> included, consumes one rune, which is one to
  four bytes of the text.  \<open>DecodeRuneInString\<close> is the decoder of \<open>unicode/utf8\<close> that
  the matcher steps with: it gives the rune at the head of the string and the number of
  bytes of its encoding, and for a byte that does not start a well-formed encoding the
  rune \<open>RuneError\<close> (U+FFFD) and the width 1.  The second byte of an encoding is
  restricted by the first (\<open>accept_lo\<close>, \<open>accept_hi\<close>), which excludes the overlong
  encodings, the surrogates and the values above U+10FFFF.
\<close>

definition RuneError :: int where
  "RuneError = 0xFFFD"

definition accept_lo :: "int \<Rightarrow> int" where
  "accept_lo s0 = (if s0 = 0xE0 then 0xA0 else if s0 = 0xF0 then 0x90 else 0x80)"

definition accept_hi :: "int \<Rightarrow> int" where
  "accept_hi s0 = (if s0 = 0xED then 0x9F else if s0 = 0xF4 then 0x8F else 0xBF)"

fun DecodeRuneInString :: "string \<Rightarrow> int \<times> nat" where
  "DecodeRuneInString [] = (RuneError, 0)"
| "DecodeRuneInString (x0 # xs) =
     (let s0 = of_char x0
      in if s0 < 0x80 then (s0, 1)
         else if s0 < 0xC2 \<or> 0xF4 < s0 then (RuneError, 1)
         else case xs of
           [] \<Rightarrow> (RuneError, 1)
         | x1 # xs1 \<Rightarrow>
             let s1 = of_char x1
             in if s1 < accept_lo s0 \<or> accept_hi s0 < s1 then (RuneError, 1)
                else if s0 < 0xE0 then (s0 mod 0x20 * 0x40 + s1 mod 0x40, 2)
                else case xs1 of
                  [] \<Rightarrow> (RuneError, 1)
                | x2 # xs2 \<Rightarrow>
                    let s2 = of_char x2
                    in if s2 < 0x80 \<or> 0xBF < s2 then (RuneError, 1)
                       else if s0 < 0xF0
                       then (s0 mod 0x10 * 0x1000 + s1 mod 0x40 * 0x40 + s2 mod 0x40, 3)
                       else case xs2 of
                         [] \<Rightarrow> (RuneError, 1)
                       | x3 # xs3 \<Rightarrow>
                           let s3 = of_char x3
                           in if s3 < 0x80 \<or> 0xBF < s3 then (RuneError, 1)
                              else (s0 mod 0x08 * 0x40000 + s1 mod 0x40 * 0x1000
                                      + s2 mod 0x40 * 0x40 + s3 mod 0x40, 4))"

text \<open>
  The regular expressions of the source, in the syntax of Go's \<open>regexp\<close> package, as
  terms.  A character class is a set of runes: \<open>.\<close> (any rune but a newline), \<open>\d\<close>
  (\<open>0\<close> to \<open>9\<close>), \<open>[[:alpha:]]\<close> (the ASCII letters), a set \<open>[\<dots>]\<close>, a negated set
  \<open>[^\<dots>]\<close>, or a union of classes.  The sets and the literals of the source are
  written with ASCII characters, each of which is the rune of its byte.
\<close>

datatype cls = Dot | Digit | Alpha | OneOf string | NoneOf string | Either cls cls

fun in_cls :: "cls \<Rightarrow> int \<Rightarrow> bool" where
  "in_cls Dot r = (r \<noteq> 0x0A)"
| "in_cls Digit r = (0x30 \<le> r \<and> r \<le> 0x39)"
| "in_cls Alpha r = (0x41 \<le> r \<and> r \<le> 0x5A \<or> 0x61 \<le> r \<and> r \<le> 0x7A)"
| "in_cls (OneOf xs) r = (r \<in> set (map of_char xs))"
| "in_cls (NoneOf xs) r = (r \<notin> set (map of_char xs))"
| "in_cls (Either k l) r = (in_cls k r \<or> in_cls l r)"

text \<open>
  \<open>Bol\<close> is \<open>^\<close>, \<open>Eol\<close> is \<open>$\<close>, \<open>Star k\<close> is the greedy \<open>k*\<close> of a class,
  \<open>Group n r\<close> the \<open>n\<close>-th capturing group, \<open>Alt\<close> the alternation, which prefers its
  left side.
\<close>

datatype regexp = Bol | Eol | Eps | Cls cls | Star cls | Seq regexp regexp
  | Alt regexp regexp | Group nat regexp

definition lit :: "string \<Rightarrow> regexp" where
  "lit w = foldr (\<lambda>x r. Seq (Cls (OneOf [x])) r) w Eps"

fun repeated :: "nat \<Rightarrow> regexp \<Rightarrow> regexp" where
  "repeated 0 r = Eps"
| "repeated (Suc n) r = Seq r (repeated n r)"

definition seqs :: "regexp list \<Rightarrow> regexp" where
  "seqs rs = foldr Seq rs Eps"

definition start :: regexp where
  "start = seqs [Bol, lit ''gs://'', Group 1 (Star Dot), lit ''/'',
                 Group 2 (Star (NoneOf ''/'')), lit ''/'']"

definition datePath :: regexp where
  "datePath = seqs [Group 3 (seqs [repeated 4 (Cls Digit), lit ''/'', Cls (OneOf ''01''), Cls Digit,
                                   lit ''/'', Cls (OneOf ''0123''), Cls Digit]),
                    lit ''/'']"

definition dateTime :: regexp where
  "dateTime = seqs [Group 4 (seqs [repeated 4 (Cls Digit), Cls (OneOf ''01''), Cls Digit,
                                   Cls (OneOf ''0123''), Cls Digit]),
                    lit ''T'', repeated 6 (Cls Digit), lit ''Z'']"

definition mlabN_podNN :: regexp where
  "mlabN_podNN = seqs [lit ''-'', Group 5 (seqs [lit ''mlab'', Cls Digit]), lit ''-'',
                       Group 6 (seqs [repeated 3 (Cls Alpha), Cls Digit,
                                      Cls (Either Digit (OneOf ''t''))]),
                       lit ''-'']"

definition exp_NNNN :: regexp where
  "exp_NNNN = seqs [Group 7 (Star Dot), lit ''-'', Group 8 (repeated 4 (Cls Digit))]"

definition suffix :: regexp where
  "suffix = seqs [Alt (lit ''.tar'') (Alt (seqs [lit ''.tar'', Cls Dot, lit ''gz'']) (lit ''.tgz'')),
                  Eol]"

definition TaskPattern :: regexp where
  "TaskPattern = seqs [start, datePath, dateTime, mlabN_podNN, exp_NNNN, suffix]"

definition startPattern :: regexp where
  "startPattern = start"

definition endPattern :: regexp where
  "endPattern = suffix"

definition podPattern :: regexp where
  "podPattern = mlabN_podNN"

text \<open>
  Matching by backtracking, which gives the leftmost match and, among the matches at
  one position, the one Go's \<open>regexp\<close> prefers.  A state is the position in the text
  (a byte offset), the rest of the text and the groups captured so far; \<open>rmatch r st\<close>
  lists the states after a match of \<open>r\<close> from \<open>st\<close>, the preferred first.  A class
  consumes the rune at the head of the rest, of \<open>n\<close> bytes: the head byte and \<open>n - 1\<close>
  bytes behind it.
\<close>

type_synonym mstate = "nat \<times> string \<times> (nat \<times> string) list"

fun star :: "cls \<Rightarrow> nat \<Rightarrow> string \<Rightarrow> (nat \<times> string) list \<Rightarrow> mstate list" where
  "star k p [] c = [(p, [], c)]"
| "star k p (x # xs) c =
     (case DecodeRuneInString (x # xs) of
        (r, n) \<Rightarrow> (if in_cls k r then star k (p + n) (drop (n - 1) xs) c else [])
                    @ [(p, x # xs, c)])"

fun rmatch :: "regexp \<Rightarrow> mstate \<Rightarrow> mstate list" where
  "rmatch Bol (p, s, c) = (if p = 0 then [(p, s, c)] else [])"
| "rmatch Eol (p, s, c) = (if s = [] then [(p, s, c)] else [])"
| "rmatch Eps st = [st]"
| "rmatch (Cls k) (p, s, c) =
     (case s of
        [] \<Rightarrow> []
      | x # xs \<Rightarrow>
          (case DecodeRuneInString (x # xs) of
             (r, n) \<Rightarrow> if in_cls k r then [(p + n, drop (n - 1) xs, c)] else []))"
| "rmatch (Star k) (p, s, c) = star k p s c"
| "rmatch (Seq a b) st = concat (map (rmatch b) (rmatch a st))"
| "rmatch (Alt a b) st = rmatch a st @ rmatch b st"
| "rmatch (Group n r) (p, s, c) =
     map (\<lambda>(p', s', c'). (p', s', (n, take (p' - p) s) # c')) (rmatch r (p, s, c))"

text \<open>
  The positions at which a match is tried: position \<open>p\<close>, then the position behind the
  rune that starts there, and so on to the end of the text.
\<close>

fun rune_starts :: "nat \<Rightarrow> string \<Rightarrow> nat list" where
  "rune_starts p [] = [p]"
| "rune_starts p (x # xs) =
     p # (case DecodeRuneInString (x # xs) of
            (r, n) \<Rightarrow> rune_starts (p + n) (drop (n - 1) xs))"

text \<open>The matches of the whole expression, as group 0, from every start position in turn.\<close>

definition all_matches :: "regexp \<Rightarrow> string \<Rightarrow> mstate list" where
  "all_matches re text =
     concat (map (\<lambda>i. rmatch (Group 0 re) (i, drop i text, [])) (rune_starts 0 text))"

definition MatchString :: "regexp \<Rightarrow> string \<Rightarrow> bool" where
  "MatchString re text \<longleftrightarrow> all_matches re text \<noteq> []"

text \<open>
  \<open>FindStringSubmatch\<close> for an expression with \<open>n\<close> groups: \<open>None\<close> is the nil
  slice, otherwise the text of the match and of the groups 1 to \<open>n\<close>.
\<close>

definition FindStringSubmatch :: "regexp \<Rightarrow> nat \<Rightarrow> string \<Rightarrow> string list option" where
  "FindStringSubmatch re n text =
     (case all_matches re text of
        [] \<Rightarrow> None
      | (p, s, c) # _ \<Rightarrow>
          Some (map (\<lambda>k. case map_of c k of None \<Rightarrow> [] | Some v \<Rightarrow> v) [0..<Suc n]))"

record DataPath =
  Exp1 :: string
  DatePath :: string
  PackedDate :: string
  Host :: string
  Pod :: string
  Experiment :: string
  FileNumber :: string

text \<open>The error is its message.\<close>

definition ValidateTestPath :: "string \<Rightarrow> string + DataPath" where
  "ValidateTestPath path =
     (case FindStringSubmatch TaskPattern 8 path of
        None \<Rightarrow>
          if \<not> MatchString startPattern path
          then Inl (''Path should begin with gs://.../.../: '' @ path)
          else if \<not> MatchString endPattern path
          then Inl (''Path should end in .tar, .tgz, or .tar.gz: '' @ path)
          else if \<not> MatchString podPattern path
          then Inl (''Path should contain -mlabN-podNN: '' @ path)
          else Inl (''Invalid test path: '' @ path)
      | Some flds \<Rightarrow>
          Inr \<lparr>Exp1 = flds ! 2, DatePath = flds ! 3, PackedDate = flds ! 4,
               Host = flds ! 5, Pod = flds ! 6, Experiment = flds ! 7,
               FileNumber = flds ! 8\<rparr>)"

text \<open>The calendar day of a date path \<open>YYYY/MM/DD\<close>, as \<open>YYYYMMDD\<close>.\<close>

definition packed_of_date_path :: "string \<Rightarrow> string" where
  "packed_of_date_path d = filter (\<lambda>x. x \<noteq> CHR ''/'') d"

definition is_date_path :: "string \<Rightarrow> bool" where
  "is_date_path d \<longleftrightarrow>
     list_all2 (\<lambda>k x. in_cls k (of_char x))
       [Digit, Digit, Digit, Digit, OneOf ''/'', OneOf ''01'', Digit, OneOf ''/'',
        OneOf ''0123'', Digit] d"

definition is_packed_date :: "string \<Rightarrow> bool" where
  "is_packed_date d \<longleftrightarrow>
     list_all2 (\<lambda>k x. in_cls k (of_char x))
       [Digit, Digit, Digit, Digit, OneOf ''01'', Digit, OneOf ''0123'', Digit] d"

section \<open>Properties of ActiveStats\<close>

lemma wrap64_id: "in_int64 x \<Longrightarrow> wrap64 x = x"
  by (simp add: wrap64_def in_int64_def)

lemma Total_exact:
  assumes "stats_inv s k"
  shows "Total s = Buffered s + Pending s + Committed s + Failed s"
proof -
  from assms have b: "0 \<le> Buffered s" "0 \<le> Pending s" "0 \<le> Committed s" "0 \<le> Failed s"
    and t: "Buffered s + Pending s + Committed s + Failed s < 2 ^ 63"
    by (auto simp: stats_inv_def non_negative_def)
  have 1: "wrap64 (Buffered s + Pending s) = Buffered s + Pending s"
    using b t by (intro wrap64_id) (simp add: in_int64_def)
  have 2: "wrap64 (Buffered s + Pending s + Committed s) = Buffered s + Pending s + Committed s"
    using b t by (intro wrap64_id) (simp add: in_int64_def)
  have 3: "wrap64 (Buffered s + Pending s + Committed s + Failed s)
             = Buffered s + Pending s + Committed s + Failed s"
    using b t by (intro wrap64_id) (simp add: in_int64_def)
  show ?thesis by (simp add: Total_def 1 2 3)
qed

lemma stats_step_inv:
  assumes "stats_inv s k" "legal_call s c" "k + 1 < 2 ^ 63"
  shows "stats_inv (stats_step c s) (k + 1)
         \<and> Buffered s + Pending s + Committed s + Failed s
             \<le> Buffered (stats_step c s) + Pending (stats_step c s)
                + Committed (stats_step c s) + Failed (stats_step c s)"
proof -
  from assms(1) have b: "0 \<le> Buffered s" "0 \<le> Pending s" "0 \<le> Committed s" "0 \<le> Failed s"
    and t: "Buffered s + Pending s + Committed s + Failed s \<le> k"
    by (auto simp: stats_inv_def non_negative_def)
  show ?thesis
  proof (cases c)
    case CallInc
    have "wrap64 (Buffered s + 1) = Buffered s + 1"
      using b t assms(3) by (intro wrap64_id) (simp add: in_int64_def)
    then show ?thesis
      using CallInc b t assms(3) by (simp add: Inc_def stats_inv_def non_negative_def)
  next
    case (CallMoveToPending n)
    with assms(2) have n: "0 \<le> n" "n \<le> Buffered s" by auto
    have 1: "wrap64 (Buffered s - n) = Buffered s - n"
      using b t n assms(3) by (intro wrap64_id) (simp add: in_int64_def)
    have 2: "wrap64 (Pending s + n) = Pending s + n"
      using b t n assms(3) by (intro wrap64_id) (simp add: in_int64_def)
    show ?thesis
      using CallMoveToPending b t n assms(3)
      by (simp add: MoveToPending_def 1 2 stats_inv_def non_negative_def)
  next
    case (CallDone n err)
    with assms(2) have n: "0 \<le> n" "n \<le> Pending s" by auto
    have 1: "wrap64 (Pending s - n) = Pending s - n"
      using b t n assms(3) by (intro wrap64_id) (simp add: in_int64_def)
    have 2: "wrap64 (Failed s + n) = Failed s + n"
      using b t n assms(3) by (intro wrap64_id) (simp add: in_int64_def)
    have 3: "wrap64 (Committed s + n) = Committed s + n"
      using b t n assms(3) by (intro wrap64_id) (simp add: in_int64_def)
    show ?thesis
      using CallDone b t n assms(3)
      by (simp add: Done_def Let_def 1 2 3 stats_inv_def non_negative_def)
  qed
qed

lemma stats_run_inv:
  "stats_inv s k \<Longrightarrow> legal_calls s cs \<Longrightarrow> k + int (length cs) < 2 ^ 63
     \<Longrightarrow> stats_inv (stats_run s cs) (k + int (length cs))"
proof (induction cs arbitrary: s k)
  case Nil
  then show ?case by simp
next
  case (Cons c cs)
  have "stats_inv (stats_step c s) (k + 1)"
    using stats_step_inv [of s k c] Cons.prems by simp
  moreover have "legal_calls (stats_step c s) cs"
    using Cons.prems by simp
  moreover have "(k + 1) + int (length cs) < 2 ^ 63"
    using Cons.prems by simp
  ultimately have "stats_inv (stats_run (stats_step c s) cs) ((k + 1) + int (length cs))"
    by (rule Cons.IH)
  then show ?case by (simp add: add.assoc)
qed

lemma legal_calls_append:
  "legal_calls s (pre @ post) \<longleftrightarrow> legal_calls s pre \<and> legal_calls (stats_run s pre) post"
  by (induction pre arbitrary: s) auto

text \<open>
  C8 as the code has it.  The counts have to be non-negative as well: a call is legal when
  it is \<open>Inc\<close>, \<open>MoveToPending(n)\<close> with \<open>0 \<le> n\<close> and \<open>n\<close> at most the current
  \<open>Buffered\<close>, or \<open>Done(n, err)\<close> with \<open>0 \<le> n\<close> and \<open>n\<close> at most the current
  \<open>Pending\<close>.  Starting from counters that are non-negative (the fresh \<open>ActiveStats\<close>
  of \<open>NewBase\<close> has all four at zero), along every such call sequence that is short
  enough for the row count to fit Go's 64-bit \<open>int\<close>, each call leaves \<open>Buffered\<close>,
  \<open>Pending\<close>, \<open>Committed\<close> and \<open>Failed\<close> non-negative and does not decrease
  \<open>Total()\<close>.
\<close>

theorem ActiveStats_counters_nonneg_total_monotone:
  assumes start: "non_negative s0"
    and room: "Buffered s0 + Pending s0 + Committed s0 + Failed s0 + int (length cs) < 2 ^ 63"
    and legal: "legal_calls s0 cs"
    and split: "cs = pre @ c # post"
  shows "non_negative (stats_step c (stats_run s0 pre))
         \<and> Total (stats_run s0 pre) \<le> Total (stats_step c (stats_run s0 pre))"
proof -
  let ?k = "Buffered s0 + Pending s0 + Committed s0 + Failed s0"
  let ?s = "stats_run s0 pre"
  have len: "int (length cs) = int (length pre) + 1 + int (length post)"
    using split by simp
  have inv0: "stats_inv s0 ?k"
    using start room by (simp add: stats_inv_def)
  have lp: "legal_calls s0 pre" and lc: "legal_call ?s c"
    using legal split by (simp_all add: legal_calls_append)
  have inv1: "stats_inv ?s (?k + int (length pre))"
    using inv0 lp room len by (intro stats_run_inv) simp_all
  have bound: "?k + int (length pre) + 1 < 2 ^ 63"
    using room len by simp
  have step: "stats_inv (stats_step c ?s) (?k + int (length pre) + 1)
         \<and> Buffered ?s + Pending ?s + Committed ?s + Failed ?s
             \<le> Buffered (stats_step c ?s) + Pending (stats_step c ?s)
                + Committed (stats_step c ?s) + Failed (stats_step c ?s)"
    using stats_step_inv [OF inv1 lc bound] .
  have t1: "Total ?s = Buffered ?s + Pending ?s + Committed ?s + Failed ?s"
    using inv1 by (rule Total_exact)
  have t2: "Total (stats_step c ?s) = Buffered (stats_step c ?s) + Pending (stats_step c ?s)
                + Committed (stats_step c ?s) + Failed (stats_step c ?s)"
    using step by (intro Total_exact) blast
  show ?thesis
    using step t1 t2 by (simp add: stats_inv_def)
qed

theorem ActiveStats_counters_nonneg_total_monotone_witness:
  "non_negative zero_stats
   \<and> Buffered zero_stats + Pending zero_stats + Committed zero_stats + Failed zero_stats
        + int (length [CallInc, CallInc, CallMoveToPending 2, CallDone 1 None,
                       CallDone 1 (Some ''commit failed'')]) < 2 ^ 63
   \<and> legal_calls zero_stats
        [CallInc, CallInc, CallMoveToPending 2, CallDone 1 None, CallDone 1 (Some ''commit failed'')]
   \<and> non_negative (stats_step (CallDone 1 (Some ''commit failed''))
        (stats_run zero_stats
           [CallInc, CallInc, CallMoveToPending 2, CallDone 1 (None :: string option)]))
   \<and> Total (stats_run zero_stats
         [CallInc, CallInc, CallMoveToPending 2, CallDone 1 (None :: string option)])
        \<le> Total (stats_step (CallDone 1 (Some ''commit failed''))
             (stats_run zero_stats
                [CallInc, CallInc, CallMoveToPending 2, CallDone 1 (None :: string option)]))"
proof -
  have nn: "non_negative zero_stats"
    by (simp add: non_negative_def zero_stats_def)
  have room: "Buffered zero_stats + Pending zero_stats + Committed zero_stats + Failed zero_stats
        + int (length [CallInc, CallInc, CallMoveToPending 2, CallDone 1 None,
                       CallDone 1 (Some ''commit failed'')]) < 2 ^ 63"
    by (simp add: zero_stats_def)
  have legal: "legal_calls zero_stats
        [CallInc, CallInc, CallMoveToPending 2, CallDone 1 None, CallDone 1 (Some ''commit failed'')]"
    by (simp add: zero_stats_def Inc_def MoveToPending_def Done_def wrap64_def)
  have split: "[CallInc, CallInc, CallMoveToPending 2, CallDone 1 None,
                CallDone 1 (Some ''commit failed'')]
               = [CallInc, CallInc, CallMoveToPending 2, CallDone 1 None]
                 @ CallDone 1 (Some ''commit failed'') # []"
    by simp
  note concl = ActiveStats_counters_nonneg_total_monotone [OF nn room legal split]
  show ?thesis
    by (intro conjI nn room legal concl [THEN conjunct1] concl [THEN conjunct2])
qed

text \<open>
  C8 as stated fails.  The claim calls \<open>MoveToPending(n)\<close> legal when \<open>n\<close> is at most the
  current \<open>Buffered\<close> and \<open>Done(n, err)\<close> legal when \<open>n\<close> is at most the current
  \<open>Pending\<close>, which a negative \<open>n\<close> always is on non-negative counters; the methods take
  an \<open>int\<close> and do not check its sign.  On the fresh counters \<open>MoveToPending(-1)\<close>
  leaves \<open>Pending\<close> at -1, and \<open>Done(-1, err)\<close>, which \<open>Base.commit\<close> calls as
  \<open>Done(len(rows) - done, err)\<close> when the sink reports one row more than it was given,
  leaves \<open>Failed\<close> at -1.
\<close>

theorem ActiveStats_negative_count_counterexample:
  "non_negative zero_stats
   \<and> (- 1 :: int) \<le> Buffered zero_stats
   \<and> stats_step (CallMoveToPending (- 1) :: string stats_call) zero_stats
       = \<lparr>Buffered = 1, Pending = - 1, Committed = 0, Failed = 0\<rparr>
   \<and> \<not> non_negative (stats_step (CallMoveToPending (- 1) :: string stats_call) zero_stats)
   \<and> (- 1 :: int) \<le> Pending zero_stats
   \<and> stats_step (CallDone (- 1) (Some ''commit failed'')) zero_stats
       = \<lparr>Buffered = 0, Pending = 1, Committed = 0, Failed = - 1\<rparr>
   \<and> \<not> non_negative (stats_step (CallDone (- 1) (Some ''commit failed'')) zero_stats)"
  by (simp add: non_negative_def zero_stats_def MoveToPending_def Done_def wrap64_def)


section \<open>Properties of Buffer\<close>

lemma append_all_concat:
  "append_all buf xs = (outs, buf')
     \<Longrightarrow> concat (map batch outs) @ rows buf' = rows buf @ xs"
proof (induction xs arbitrary: buf outs buf')
  case Nil
  then show ?case by simp
next
  case (Cons x xs)
  obtain out b1 where a: "Append x buf = (out, b1)"
    by (cases "Append x buf")
  obtain outs1 b2 where r: "append_all b1 xs = (outs1, b2)"
    by (cases "append_all b1 xs")
  from Cons.prems a r have o: "outs = out # outs1" and b: "buf' = b2"
    by simp_all
  have ih: "concat (map batch outs1) @ rows b2 = rows b1 @ xs"
    using r by (rule Cons.IH)
  have "batch out @ rows b1 = rows buf @ [x]"
    using a by (auto simp: Append_def split: if_splits)
  then have "batch out @ rows b1 @ xs = rows buf @ x # xs"
    by (metis append.assoc append_Cons append_Nil)
  with ih show ?case
    by (simp add: o b)
qed

lemma Append_bounded:
  assumes "bounded_rows m buf" "Append x buf = (out, buf')"
  shows "bounded_rows m buf' \<and> int (length (batch out)) \<le> m"
  using assms by (auto simp: Append_def bounded_rows_def split: if_splits)

lemma append_all_bounded:
  "bounded_rows m buf \<Longrightarrow> append_all buf xs = (outs, buf')
     \<Longrightarrow> bounded_rows m buf' \<and> (\<forall>out \<in> set outs. int (length (batch out)) \<le> m)"
proof (induction xs arbitrary: buf outs buf')
  case Nil
  then show ?case by simp
next
  case (Cons x xs)
  obtain out b1 where a: "Append x buf = (out, b1)"
    by (cases "Append x buf")
  obtain outs1 b2 where r: "append_all b1 xs = (outs1, b2)"
    by (cases "append_all b1 xs")
  from Cons.prems a r have o: "outs = out # outs1" and b: "buf' = b2"
    by simp_all
  have s: "bounded_rows m b1 \<and> int (length (batch out)) \<le> m"
    using Cons.prems(1) a by (rule Append_bounded)
  then have "bounded_rows m b2 \<and> (\<forall>out \<in> set outs1. int (length (batch out)) \<le> m)"
    using r by (intro Cons.IH) simp_all
  with s show ?case
    by (simp add: o b)
qed

text \<open>
  C7 as the code has it.  For a buffer made by \<open>NewBuffer N\<close> and every finite sequence
  of rows appended to it, the batches returned by \<open>Append\<close>, in call order, followed by
  the batch of a final \<open>Reset\<close>, are the appended rows in order; no returned batch is
  longer than \<open>max N 1\<close>, hence none is longer than \<open>N\<close> when \<open>N \<ge> 1\<close>.
\<close>

theorem Buffer_batches_concat_and_bound:
  assumes "NewBuffer N = Some buf"
    and "append_all buf xs = (outs, buf')"
  shows "concat (map batch outs) @ fst (Reset buf') = xs
         \<and> (\<forall>out \<in> set outs. int (length (batch out)) \<le> max N 1)
         \<and> int (length (fst (Reset buf'))) \<le> max N 1"
proof -
  from assms(1) have n: "0 \<le> N" and b: "buf = \<lparr>size_buf = N, rows = []\<rparr>"
    by (auto simp: NewBuffer_def split: if_splits)
  have c: "concat (map batch outs) @ rows buf' = rows buf @ xs"
    using assms(2) by (rule append_all_concat)
  have "bounded_rows (max N 1) buf"
    by (simp add: b bounded_rows_def)
  then have "bounded_rows (max N 1) buf' \<and> (\<forall>out \<in> set outs. int (length (batch out)) \<le> max N 1)"
    using assms(2) by (rule append_all_bounded)
  with c show ?thesis
    by (simp add: b Reset_def bounded_rows_def)
qed

theorem Buffer_batches_concat_and_bound_witness:
  "NewBuffer 2 = Some \<lparr>size_buf = 2, rows = ([] :: nat list)\<rparr>
   \<and> append_all \<lparr>size_buf = 2, rows = []\<rparr> [10, 20, 30, 40, 50 :: nat]
       = ([None, None, Some [10, 20], None, Some [30, 40]], \<lparr>size_buf = 2, rows = [50]\<rparr>)
   \<and> concat (map batch [None, None, Some [10, 20], None, Some [30, 40]])
       @ fst (Reset \<lparr>size_buf = 2, rows = [50 :: nat]\<rparr>) = [10, 20, 30, 40, 50]
   \<and> int (length (batch (Some [30, 40 :: nat]))) \<le> max 2 1
   \<and> int (length (fst (Reset \<lparr>size_buf = 2, rows = [50 :: nat]\<rparr>))) \<le> max 2 1"
proof -
  have new: "NewBuffer 2 = Some \<lparr>size_buf = 2, rows = ([] :: nat list)\<rparr>"
    by (simp add: NewBuffer_def)
  have run: "append_all \<lparr>size_buf = 2, rows = []\<rparr> [10, 20, 30, 40, 50 :: nat]
       = ([None, None, Some [10, 20], None, Some [30, 40]], \<lparr>size_buf = 2, rows = [50]\<rparr>)"
    by (simp add: Append_def)
  have mem: "Some [30, 40 :: nat] \<in> set [None, None, Some [10, 20], None, Some [30, 40]]"
    by simp
  note concl = Buffer_batches_concat_and_bound [OF new run]
  show ?thesis
    by (intro conjI new run concl [THEN conjunct1]
          concl [THEN conjunct2, THEN conjunct1, THEN bspec, OF mem]
          concl [THEN conjunct2, THEN conjunct2])
qed

text \<open>
  The bound of C7 as stated fails for the capacity 0 that \<open>dataTypeToBQBufferSize\<close>
  gives the invalid data type: the second \<open>Append\<close> returns a batch of one row.
\<close>

theorem Buffer_capacity_zero_counterexample:
  "NewBuffer 0 = Some \<lparr>size_buf = 0, rows = ([] :: nat list)\<rparr>
   \<and> fst (append_all \<lparr>size_buf = 0, rows = []\<rparr> [7, 8 :: nat]) = [Some [], Some [7]]
   \<and> \<not> int (length [7 :: nat]) \<le> 0"
  by (simp add: NewBuffer_def Append_def)

section \<open>Properties of ParseKHeader\<close>

lemma ParseKHeader_loop_nil_panics:
  "0 < i \<Longrightarrow> ParseKHeader_loop mapping ((i, name) # rest) [] = Inl (IndexOutOfRange (i - 1) 0)"
  by (simp add: slice_store_def)

text \<open>
  C10.  For every header whose pieces between spaces are \<open>K:\<close> and then at least one
  variable name, \<open>ParseKHeader\<close> does not return: it panics.  When the asset is found the
  panic is the write at index 0 into \<open>var_names\<close>, which was never allocated and has
  length 0; the successful return is therefore never reached.
\<close>

theorem ParseKHeader_panics_on_variables:
  assumes "Split header (CHR '' '') = ''K:'' # v # vs"
  shows "(\<exists>p. ParseKHeader asset definitions header = Inl p)
         \<and> (\<forall>data. asset ''tcp-kis.txt'' = Some data
               \<longrightarrow> ParseKHeader asset definitions header = Inl (IndexOutOfRange 0 0))
         \<and> (\<forall>names err. ParseKHeader asset definitions header \<noteq> Inr (names, err))"
proof (cases "asset ''tcp-kis.txt''")
  case None
  then show ?thesis
    using assms by (simp add: ParseKHeader_def)
next
  case (Some data)
  have "ParseKHeader_loop (definitions data) (enumerate 0 (''K:'' # v # vs)) []
          = Inl (IndexOutOfRange 0 0)"
    by (simp add: slice_store_def)
  then show ?thesis
    using assms Some by (simp add: ParseKHeader_def)
qed

theorem ParseKHeader_panics_on_variables_witness:
  "Split ''K: LocalAddress RemAddress'' (CHR '' '') = ''K:'' # ''LocalAddress'' # [''RemAddress'']
   \<and> ParseKHeader (\<lambda>name. Some ''data'') (\<lambda>data name. []) ''K: LocalAddress RemAddress''
       = Inl (IndexOutOfRange 0 0)"
proof -
  have s: "Split ''K: LocalAddress RemAddress'' (CHR '' '')
             = ''K:'' # ''LocalAddress'' # [''RemAddress'']"
    by simp
  have a: "(\<lambda>name :: string. Some ''data'') ''tcp-kis.txt'' = Some ''data''"
    by simp
  note concl = ParseKHeader_panics_on_variables
    [OF s, of "\<lambda>name. Some ''data''" "\<lambda>data name. []", THEN conjunct2, THEN conjunct1,
     rule_format, OF a]
  show ?thesis
    by (intro conjI s concl)
qed

section \<open>Properties of getSummaryFromSample\<close>

lemma Before_yyyymmdd:
  assumes "valid_date d1" "valid_date d2"
  shows "Before d1 d2 \<longleftrightarrow> yyyymmdd d1 < yyyymmdd d2"
  using assms unfolding Before_def valid_date_def yyyymmdd_def by auto

lemma valid_deployment_date: "valid_date discoV2DeploymentDate"
  by (simp add: valid_date_def discoV2DeploymentDate_def)

lemma valid_fix_date: "valid_date discoV2FixDate"
  by (simp add: valid_date_def discoV2FixDate_def)

lemma in_bad_window:
  assumes "valid_date d"
  shows "After d discoV2DeploymentDate \<and> Before d discoV2FixDate
         \<longleftrightarrow> 20200909 < yyyymmdd d \<and> yyyymmdd d < 20220119"
proof -
  have "yyyymmdd discoV2DeploymentDate = 20200909" "yyyymmdd discoV2FixDate = 20220119"
    by (simp_all add: yyyymmdd_def discoV2DeploymentDate_def discoV2FixDate_def)
  then show ?thesis
    using Before_yyyymmdd [OF valid_deployment_date assms] Before_yyyymmdd [OF assms valid_fix_date]
    by (simp add: After_def)
qed

lemma float_to_int64_truncates:
  "in_int64 (truncate_rat v) \<Longrightarrow> float_to_int64 oob v = truncate_rat v"
  by (simp add: float_to_int64_def)

text \<open>
  C9.  For a sample of the metric \<open>switch.octets.local.tx\<close> or
  \<open>switch.octets.local.rx\<close> whose delta and counter fields exist in the summary: when the
  archive date is strictly after 2020-09-09 and strictly before 2022-01-19 both fields
  are set to 0; for every other archive date the delta field holds the sample's value
  with its fraction discarded (for a value in the range of \<open>int64\<close>) and the counter
  field the sample's counter.
\<close>

theorem getSummaryFromSample_octets_local:
  assumes metric: "metric = ''switch.octets.local.tx'' \<or> metric = ''switch.octets.local.rx''"
    and fields: "A (ToCamel metric) \<noteq> None" "A (ToCamel metric @ ''Counter'') \<noteq> None"
    and date: "valid_date archiveDate"
    and range: "in_int64 (truncate_rat (Value sample))"
  shows "(20200909 < yyyymmdd archiveDate \<and> yyyymmdd archiveDate < 20220119
            \<longrightarrow> getSummaryFromSample ToCamel oob metric sample A archiveDate (ToCamel metric) = Some 0
              \<and> getSummaryFromSample ToCamel oob metric sample A archiveDate
                  (ToCamel metric @ ''Counter'') = Some 0)
         \<and> (\<not> (20200909 < yyyymmdd archiveDate \<and> yyyymmdd archiveDate < 20220119)
            \<longrightarrow> getSummaryFromSample ToCamel oob metric sample A archiveDate (ToCamel metric)
                  = Some (truncate_rat (Value sample))
              \<and> getSummaryFromSample ToCamel oob metric sample A archiveDate
                  (ToCamel metric @ ''Counter'') = Some (Counter sample))"
proof -
  have ne: "ToCamel metric \<noteq> ToCamel metric @ ''Counter''"
    by simp
  show ?thesis
    using metric fields ne in_bad_window [OF date] float_to_int64_truncates [OF range, of oob]
    by (auto simp: getSummaryFromSample_def Let_def)
qed


theorem getSummaryFromSample_octets_local_witness:
  "(20200909 < yyyymmdd \<lparr>Year = 2021, Month = 6, Day = 1\<rparr>
      \<and> yyyymmdd \<lparr>Year = 2021, Month = 6, Day = 1\<rparr> < 20220119)
   \<and> getSummaryFromSample (\<lambda>m. ''SwitchOctetsLocalTx'') (\<lambda>v. 0) ''switch.octets.local.tx''
        \<lparr>Timestamp = 1622505600, Value = 2571 / 2, Counter = 77\<rparr>
        [''SwitchOctetsLocalTx'' \<mapsto> 5, ''SwitchOctetsLocalTxCounter'' \<mapsto> 6]
        \<lparr>Year = 2021, Month = 6, Day = 1\<rparr> ''SwitchOctetsLocalTx'' = Some 0
   \<and> \<not> (20200909 < yyyymmdd \<lparr>Year = 2022, Month = 2, Day = 1\<rparr>
      \<and> yyyymmdd \<lparr>Year = 2022, Month = 2, Day = 1\<rparr> < 20220119)
   \<and> getSummaryFromSample (\<lambda>m. ''SwitchOctetsLocalTx'') (\<lambda>v. 0) ''switch.octets.local.tx''
        \<lparr>Timestamp = 1622505600, Value = 2571 / 2, Counter = 77\<rparr>
        [''SwitchOctetsLocalTx'' \<mapsto> 5, ''SwitchOctetsLocalTxCounter'' \<mapsto> 6]
        \<lparr>Year = 2022, Month = 2, Day = 1\<rparr> ''SwitchOctetsLocalTx''
       = Some (truncate_rat (Value \<lparr>Timestamp = 1622505600, Value = 2571 / 2, Counter = 77\<rparr>))
   \<and> truncate_rat (Value \<lparr>Timestamp = 1622505600, Value = 2571 / 2, Counter = 77\<rparr>) = 1285"
proof -
  let ?A = "[''SwitchOctetsLocalTx'' \<mapsto> 5 :: int, ''SwitchOctetsLocalTxCounter'' \<mapsto> 6]"
  let ?s = "\<lparr>Timestamp = 1622505600, Value = 2571 / 2, Counter = 77\<rparr>"
  have m: "''switch.octets.local.tx'' = ''switch.octets.local.tx''
           \<or> ''switch.octets.local.tx'' = ''switch.octets.local.rx''"
    by simp
  have f1: "?A ''SwitchOctetsLocalTx'' \<noteq> None"
    by simp
  have f2: "?A (''SwitchOctetsLocalTx'' @ ''Counter'') \<noteq> None"
    by simp
  have d1: "valid_date \<lparr>Year = 2021, Month = 6, Day = 1\<rparr>"
    and d2: "valid_date \<lparr>Year = 2022, Month = 2, Day = 1\<rparr>"
    by (simp_all add: valid_date_def)
  have t: "truncate_rat (Value ?s) = 1285"
    by (simp add: truncate_rat_def) linarith
  have r: "in_int64 (truncate_rat (Value ?s))"
    using t by (simp add: in_int64_def)
  have w1: "20200909 < yyyymmdd \<lparr>Year = 2021, Month = 6, Day = 1\<rparr>
      \<and> yyyymmdd \<lparr>Year = 2021, Month = 6, Day = 1\<rparr> < 20220119"
    by (simp add: yyyymmdd_def)
  have w2: "\<not> (20200909 < yyyymmdd \<lparr>Year = 2022, Month = 2, Day = 1\<rparr>
      \<and> yyyymmdd \<lparr>Year = 2022, Month = 2, Day = 1\<rparr> < 20220119)"
    by (simp add: yyyymmdd_def)
  note inside = getSummaryFromSample_octets_local
    [of "''switch.octets.local.tx''" ?A "\<lambda>m. ''SwitchOctetsLocalTx''"
        "\<lparr>Year = 2021, Month = 6, Day = 1\<rparr>" ?s "\<lambda>v. 0",
     OF m f1 f2 d1 r, THEN conjunct1, rule_format, OF w1, THEN conjunct1]
  note outside = getSummaryFromSample_octets_local
    [of "''switch.octets.local.tx''" ?A "\<lambda>m. ''SwitchOctetsLocalTx''"
        "\<lparr>Year = 2022, Month = 2, Day = 1\<rparr>" ?s "\<lambda>v. 0",
     OF m f1 f2 d2 r, THEN conjunct2, rule_format, OF w2, THEN conjunct1]
  show ?thesis
    by (intro conjI w1 [THEN conjunct1] w1 [THEN conjunct2] w2 inside outside t)
qed


section \<open>Properties of the archive source\<close>

lemma wrap64_mult_left: "wrap64 (wrap64 a * b) = wrap64 (a * b)"
proof -
  have gen: "(((a + c) mod m - c) * b + c) mod m = (a * b + c) mod m" for c m :: int
  proof -
    have 1: "((a + c) mod m - c) mod m = a mod m"
      by (simp add: mod_diff_left_eq)
    have "(((a + c) mod m - c) * b) mod m = (((a + c) mod m - c) mod m * b) mod m"
      by (simp add: mod_mult_left_eq)
    also have "\<dots> = (a mod m * b) mod m"
      by (simp only: 1)
    also have "\<dots> = (a * b) mod m"
      by (simp add: mod_mult_left_eq)
    finally have "(((a + c) mod m - c) * b) mod m = (a * b) mod m" .
    then show ?thesis
      by (metis mod_add_left_eq)
  qed
  show ?thesis
    unfolding wrap64_def by (simp only: gen)
qed

lemma doubling_Suc: "doubling d (Suc k) = wrap64 (d * 2) # doubling (wrap64 (d * 2)) k"
proof -
  have "[0..<Suc k] = 0 # map Suc [0..<k]"
    by (simp add: upt_conv_Cons map_Suc_upt del: upt_Suc)
  moreover have "wrap64 (wrap64 (d * 2) * 2 ^ Suc j) = wrap64 (d * 2 ^ Suc (Suc j))" for j
    by (simp add: wrap64_mult_left mult.assoc)
  ultimately show ?thesis
    by (simp add: doubling_def comp_def del: upt_Suc)
qed

lemma nextHeader_world:
  "nextHeader rr t w = (x, w1)
     \<Longrightarrow> next_calls w1 = Suc (next_calls w) \<and> sleeps w1 = sleeps w"
  by (auto simp: nextHeader_def Let_def GCSRetryCount_Inc_def split: sum.splits if_splits)

lemma nextData_world:
  "nextData rr h t w = (x, w1)
     \<Longrightarrow> body_calls h w1 = Suc (body_calls h w) \<and> sleeps w1 = sleeps w"
  by (auto simp: nextData_def nextData_read_def body_calls_def Let_def GCSRetryCount_Inc_def
           split: option.splits prod.splits if_splits)

lemma header_loop_sleeps:
  "NextTest_header_loop rr trial delay w = (r, w')
     \<Longrightarrow> \<exists>k. k \<le> 9 - trial \<and> next_calls w' = next_calls w + Suc k
             \<and> sleeps w' = sleeps w @ doubling delay k"
proof (induction "10 - trial" arbitrary: trial delay w r w')
  case 0
  then have "10 \<le> Suc trial" by simp
  obtain h retry err w1 where nh: "nextHeader rr (Suc trial) w = ((h, retry, err), w1)"
    by (metis surj_pair)
  have "w' = w1"
    using "0.prems" nh \<open>10 \<le> Suc trial\<close>
    by (subst (asm) NextTest_header_loop.simps) (auto split: option.splits)
  then show ?case
    using nextHeader_world [OF nh] by (intro exI [of _ 0]) (simp add: doubling_def)
next
  case (Suc n)
  obtain h retry err w1 where nh: "nextHeader rr (Suc trial) w = ((h, retry, err), w1)"
    by (metis surj_pair)
  note nw = nextHeader_world [OF nh]
  show ?case
  proof (cases "err \<noteq> None \<and> retry \<and> Suc trial < 10")
    case False
    have "w' = w1"
      using Suc.prems nh False
      by (subst (asm) NextTest_header_loop.simps) (auto split: option.splits if_splits)
    then show ?thesis
      using nw by (intro exI [of _ 0]) (simp add: doubling_def)
  next
    case True
    let ?d = "wrap64 (delay * 2)"
    have rec: "NextTest_header_loop rr (Suc trial) ?d (Sleep ?d w1) = (r, w')"
      using Suc.prems nh True
      by (subst (asm) NextTest_header_loop.simps) (auto split: option.splits if_splits)
    have "n = 10 - Suc trial"
      using Suc.hyps(2) by simp
    from Suc.hyps(1) [OF this rec]
    obtain k where k: "k \<le> 9 - Suc trial"
      "next_calls w' = next_calls (Sleep ?d w1) + Suc k"
      "sleeps w' = sleeps (Sleep ?d w1) @ doubling ?d k"
      by blast
    have "Suc k \<le> 9 - trial"
      using k(1) True by arith
    then show ?thesis
      using k nw by (intro exI [of _ "Suc k"]) (simp add: Sleep_def doubling_Suc)
  qed
qed

lemma data_loop_sleeps:
  "NextTest_data_loop rr h trial delay w = (r, w')
     \<Longrightarrow> \<exists>k. k \<le> 9 - trial \<and> body_calls h w' = body_calls h w + Suc k
             \<and> sleeps w' = sleeps w @ doubling delay k"
proof (induction "10 - trial" arbitrary: trial delay w r w')
  case 0
  then have "10 \<le> Suc trial" by simp
  obtain data retry err w1 where nd: "nextData rr h (Suc trial) w = ((data, retry, err), w1)"
    by (metis surj_pair)
  have "w' = w1"
    using "0.prems" nd \<open>10 \<le> Suc trial\<close>
    by (subst (asm) NextTest_data_loop.simps) (auto split: option.splits)
  then show ?case
    using nextData_world [OF nd] by (intro exI [of _ 0]) (simp add: doubling_def)
next
  case (Suc n)
  obtain data retry err w1 where nd: "nextData rr h (Suc trial) w = ((data, retry, err), w1)"
    by (metis surj_pair)
  note nw = nextData_world [OF nd]
  show ?case
  proof (cases "err \<noteq> None \<and> retry \<and> Suc trial < 10")
    case False
    have "w' = w1"
      using Suc.prems nd False
      by (subst (asm) NextTest_data_loop.simps) (auto split: option.splits if_splits)
    then show ?thesis
      using nw by (intro exI [of _ 0]) (simp add: doubling_def)
  next
    case True
    let ?d = "wrap64 (delay * 2)"
    have rec: "NextTest_data_loop rr h (Suc trial) ?d (Sleep ?d w1) = (r, w')"
      using Suc.prems nd True
      by (subst (asm) NextTest_data_loop.simps) (auto split: option.splits if_splits)
    have "n = 10 - Suc trial"
      using Suc.hyps(2) by simp
    from Suc.hyps(1) [OF this rec]
    obtain k where k: "k \<le> 9 - Suc trial"
      "body_calls h w' = body_calls h (Sleep ?d w1) + Suc k"
      "sleeps w' = sleeps (Sleep ?d w1) @ doubling ?d k"
      by blast
    have "Suc k \<le> 9 - trial"
      using k(1) True by arith
    moreover have "body_calls h (Sleep ?d w1) = body_calls h w1"
      by (simp add: body_calls_def Sleep_def)
    ultimately show ?thesis
      using k nw by (intro exI [of _ "Suc k"]) (simp add: Sleep_def doubling_Suc)
  qed
qed

text \<open>
  C5 as the code has it.  Each retry loop of \<open>NextTest\<close> starts with the delay at the
  base time and, on an error that is retried, first doubles the delay and then sleeps
  it.  The sleeps of the header loop are therefore \<open>2 b, 4 b, \<dots>\<close> for the base
  \<open>b\<close>, one for each call of \<open>Next()\<close> but the last, and at most nine; the sleeps of
  the body loop are again \<open>2 b, 4 b, \<dots>\<close>, one for each attempt at the body but the
  last, and at most nine.
\<close>

theorem NextTest_loops_double_then_sleep:
  assumes "NextTest_header_loop rr 0 (RetryBaseTime rr) w = (r, w')"
    and "NextTest_data_loop rr h 0 (RetryBaseTime rr) v = (d, v')"
  shows "sleeps w' = sleeps w @ doubling (RetryBaseTime rr) (next_calls w' - Suc (next_calls w))
         \<and> next_calls w < next_calls w' \<and> next_calls w' \<le> next_calls w + 10
         \<and> sleeps v' = sleeps v @ doubling (RetryBaseTime rr) (body_calls h v' - Suc (body_calls h v))
         \<and> body_calls h v < body_calls h v' \<and> body_calls h v' \<le> body_calls h v + 10"
proof -
  from header_loop_sleeps [OF assms(1)]
  obtain k where k: "k \<le> 9" "next_calls w' = next_calls w + Suc k"
    "sleeps w' = sleeps w @ doubling (RetryBaseTime rr) k"
    by auto
  from data_loop_sleeps [OF assms(2)]
  obtain m where m: "m \<le> 9" "body_calls h v' = body_calls h v + Suc m"
    "sleeps v' = sleeps v @ doubling (RetryBaseTime rr) m"
    by auto
  show ?thesis
    using k m by simp
qed


theorem NextTest_loops_double_then_sleep_witness:
  "NextTest_header_loop source_fail_once 0 (RetryBaseTime source_fail_once) new_world
     = (Inr (Some text_header),
        snd (NextTest_header_loop source_fail_once 0 (RetryBaseTime source_fail_once) new_world))
   \<and> NextTest_data_loop source_fail_once text_header 0 (RetryBaseTime source_fail_once) new_world
     = ((Some ''abc'', None),
        snd (NextTest_data_loop source_fail_once text_header 0 (RetryBaseTime source_fail_once)
               new_world))
   \<and> sleeps (snd (NextTest_header_loop source_fail_once 0 (RetryBaseTime source_fail_once)
                    new_world))
     = sleeps new_world @ doubling (RetryBaseTime source_fail_once)
         (next_calls (snd (NextTest_header_loop source_fail_once 0
                             (RetryBaseTime source_fail_once) new_world))
          - Suc (next_calls new_world))
   \<and> sleeps (snd (NextTest_data_loop source_fail_once text_header 0
                    (RetryBaseTime source_fail_once) new_world))
     = sleeps new_world @ doubling (RetryBaseTime source_fail_once)
         (body_calls text_header
            (snd (NextTest_data_loop source_fail_once text_header 0
                    (RetryBaseTime source_fail_once) new_world))
          - Suc (body_calls text_header new_world))
   \<and> sleeps (snd (NextTest_header_loop source_fail_once 0 (RetryBaseTime source_fail_once)
                    new_world)) = [32000000]
   \<and> sleeps (snd (NextTest_data_loop source_fail_once text_header 0
                    (RetryBaseTime source_fail_once) new_world)) = [32000000]"
proof -
  have h: "NextTest_header_loop source_fail_once 0 (RetryBaseTime source_fail_once) new_world
     = (Inr (Some text_header),
        snd (NextTest_header_loop source_fail_once 0 (RetryBaseTime source_fail_once) new_world))"
    by code_simp
  have d: "NextTest_data_loop source_fail_once text_header 0 (RetryBaseTime source_fail_once)
             new_world
     = ((Some ''abc'', None),
        snd (NextTest_data_loop source_fail_once text_header 0 (RetryBaseTime source_fail_once)
               new_world))"
    by code_simp
  have e1: "sleeps (snd (NextTest_header_loop source_fail_once 0 (RetryBaseTime source_fail_once)
                    new_world)) = [32000000]"
    by code_simp
  have e2: "sleeps (snd (NextTest_data_loop source_fail_once text_header 0
                    (RetryBaseTime source_fail_once) new_world)) = [32000000]"
    by code_simp
  note concl = NextTest_loops_double_then_sleep [OF h d]
  show ?thesis
    by (intro conjI h d e1 e2 concl [THEN conjunct1]
          concl [THEN conjunct2, THEN conjunct2, THEN conjunct2, THEN conjunct1])
qed

text \<open>
  C5 as stated fails: with the base time of 16 ms, the first sleep of the header loop
  and the first sleep of the body loop are 32 ms each.
\<close>

theorem NextTest_first_sleep_counterexample:
  "RetryBaseTime source_fail_once = 16000000
   \<and> sleeps (snd (NextTest source_fail_once 100 new_world)) = [32000000, 32000000]
   \<and> fst (NextTest source_fail_once 100 new_world) = Some (''a.txt'', Some ''abc'', None)"
  by code_simp


lemma header_loop_break:
  "nextHeader rr (Suc trial) w = ((h, retry, None), w1)
     \<Longrightarrow> NextTest_header_loop rr trial delay w = (Inr h, w1)"
  by (subst NextTest_header_loop.simps) simp

lemma data_loop_gives_up:
  assumes fails: "\<And>t w. fst (nextData rr h t w) = (None, True, Some e)"
  shows "trial \<le> 9 \<Longrightarrow>
         fst (NextTest_data_loop rr h trial delay w) = (None, Some e)
         \<and> body_calls h (snd (NextTest_data_loop rr h trial delay w))
             = body_calls h w + (10 - trial)"
proof (induction "9 - trial" arbitrary: trial delay w)
  case 0
  then have t: "trial = 9" by simp
  obtain w1 where nd: "nextData rr h (Suc trial) w = ((None, True, Some e), w1)"
    using fails [of "Suc trial" w] by (cases "nextData rr h (Suc trial) w") auto
  have "NextTest_data_loop rr h trial delay w = ((None, Some e), w1)"
    using nd t by (subst NextTest_data_loop.simps) simp
  then show ?case
    using nextData_world [OF nd] t by simp
next
  case (Suc n)
  then have t: "Suc trial < 10" "n = 9 - Suc trial" "Suc trial \<le> 9" by simp_all
  obtain w1 where nd: "nextData rr h (Suc trial) w = ((None, True, Some e), w1)"
    using fails [of "Suc trial" w] by (cases "nextData rr h (Suc trial) w") auto
  let ?d = "wrap64 (delay * 2)"
  have step: "NextTest_data_loop rr h trial delay w
                = NextTest_data_loop rr h (Suc trial) ?d (Sleep ?d w1)"
    using nd t(1) by (subst NextTest_data_loop.simps) simp
  have "body_calls h (Sleep ?d w1) = body_calls h w1"
    by (simp add: body_calls_def Sleep_def)
  then have "body_calls h (Sleep ?d w1) = Suc (body_calls h w)"
    using nextData_world [OF nd] by simp
  then show ?case
    using Suc.hyps(1) [OF t(2) t(3), of ?d "Sleep ?d w1"] t(1) by (simp add: step)
qed

lemma nextData_stream_error:
  "fst (nextData source_body_stream_error text_header t w)
     = (None, True, Some (Err ''stream error: stream ID 3; INTERNAL_ERROR''))"
  by (simp add: nextData_def nextData_read_def Let_def GCSRetryCount_Inc_def
      HasSuffix_def ToLower_def lower_char_def text_header_def source_body_stream_error_def)

lemma header_loop_stream_error_source:
  "NextTest_header_loop source_body_stream_error 0 d new_world
     = (Inr (Some text_header), new_world\<lparr>next_calls := 1\<rparr>)"
  by (rule header_loop_break [where retry = True])
     (simp add: nextHeader_def Let_def source_body_stream_error_def new_world_def)

text \<open>
  C3 on the code.  When every read of the body fails with a stream error, the body loop
  makes ten attempts and ends holding the error, and \<open>NextTest\<close> returns the name with
  nil data and a nil error.  When opening a gzipped entry gives \<open>io.EOF\<close>, which is
  not retried, \<open>NextTest\<close> returns the name with nil data and a nil error as well.
\<close>

theorem NextTest_returns_nil_error_on_body_failure:
  "fst (NextTest_data_loop source_body_stream_error text_header 0 16000000
          (new_world\<lparr>next_calls := 1\<rparr>))
     = (None, Some (Err ''stream error: stream ID 3; INTERNAL_ERROR''))
   \<and> body_calls text_header
        (snd (NextTest_data_loop source_body_stream_error text_header 0 16000000
                (new_world\<lparr>next_calls := 1\<rparr>)))
     = body_calls text_header (new_world\<lparr>next_calls := 1\<rparr>) + 10
   \<and> fst (NextTest source_body_stream_error 100 new_world) = Some (''a.txt'', None, None)
   \<and> fst (nextData source_zip_EOF \<lparr>Name = ''a.json.gz'', Size = 3, Typeflag = CHR ''0''\<rparr> 1
            new_world) = (None, False, Some EOF)
   \<and> fst (NextTest source_zip_EOF 100 new_world) = Some (''a.json.gz'', None, None)"
proof -
  let ?w1 = "new_world\<lparr>next_calls := 1\<rparr>"
  let ?e = "Err ''stream error: stream ID 3; INTERNAL_ERROR''"
  have loop: "fst (NextTest_data_loop source_body_stream_error text_header 0 16000000 ?w1)
                = (None, Some ?e)
         \<and> body_calls text_header
              (snd (NextTest_data_loop source_body_stream_error text_header 0 16000000 ?w1))
             = body_calls text_header ?w1 + (10 - 0)"
    by (rule data_loop_gives_up [OF nextData_stream_error]) simp
  obtain data err w2
    where r: "NextTest_data_loop source_body_stream_error text_header 0 16000000 ?w1
                = ((data, err), w2)"
    by (metis surj_pair)
  have data: "data = None"
    using loop r by simp
  have base: "RetryBaseTime source_body_stream_error = 16000000"
    by (simp add: source_body_stream_error_def)
  have a: "fst (NextTest source_body_stream_error 100 new_world) = Some (''a.txt'', None, None)"
    using r data
    by (simp add: NextTest_def header_loop_stream_error_source base)
       (simp add: text_header_def TypeReg_def)
  have b: "fst (nextData source_zip_EOF \<lparr>Name = ''a.json.gz'', Size = 3, Typeflag = CHR ''0''\<rparr> 1
            new_world) = (None, False, Some EOF)"
    by code_simp
  have c: "fst (NextTest source_zip_EOF 100 new_world) = Some (''a.json.gz'', None, None)"
    by code_simp
  show ?thesis
    using loop a b c by simp
qed

text \<open>
  C2 on the code.  The first \<open>Next()\<close> fails with an error whose message contains
  \<open>unexpected EOF\<close>; \<open>NextTest\<close> counts it, sleeps 32 ms, calls \<open>Next()\<close> again
  and returns the next entry without an error.
\<close>

theorem NextTest_retries_unexpected_EOF:
  "Next source_unexpected_EOF 0 = Inl (Err ''unexpected EOF'')
   \<and> Contains (Error (Err ''unexpected EOF'')) ''unexpected EOF''
   \<and> fst (NextTest source_unexpected_EOF 100 new_world) = Some (''a.txt'', Some ''abc'', None)
   \<and> sleeps (snd (NextTest source_unexpected_EOF 100 new_world)) = [32000000]
   \<and> next_calls (snd (NextTest source_unexpected_EOF 100 new_world)) = 2
   \<and> GCSRetryCount (snd (NextTest source_unexpected_EOF 100 new_world))
       = [(''invalid'', ''next'', 1, ''unexpected EOF'')]"
  by code_simp


section \<open>Properties of WaitForJob\<close>

lemma fibonacci_from_shift:
  "fibonacci_from b (b + p) n = fibonacci_from p b (Suc n)"
  by (induction p b n rule: fibonacci_from.induct) simp_all

lemma fibonacci_from_pos:
  "0 < p \<Longrightarrow> 0 < b \<Longrightarrow> 0 < fibonacci_from p b n"
  by (induction p b n rule: fibonacci_from.induct) simp_all

lemma fibonacci_from_mono:
  assumes "0 < p" "0 < b"
  shows "fibonacci_from p b (Suc n) \<le> fibonacci_from p b (Suc (n + k))"
proof (induction k)
  case 0
  show ?case by simp
next
  case (Suc k)
  have "0 < fibonacci_from p b (n + k)"
    using assms by (rule fibonacci_from_pos)
  then show ?case
    using Suc by simp
qed

lemma fibonacci_from_ge_backoff:
  assumes "0 < p" "0 < b"
  shows "b \<le> fibonacci_from p b (Suc i)"
  using fibonacci_from_mono [OF assms, of 0 i] by simp

lemma backoff_delays_grow:
  assumes p: "0 < p" "p \<le> b" and b: "b < M"
    and rest: "backoff_delays b (b + p) M sl"
  shows "backoff_delays p b M ((b + p) # sl)"
  unfolding backoff_delays_def
proof (intro allI impI)
  fix i
  assume i: "i < length ((b + p) # sl)"
  show "(fibonacci_from p b (Suc i) < M
           \<longrightarrow> ((b + p) # sl) ! i = fibonacci_from p b (Suc (Suc i)))
      \<and> (M \<le> fibonacci_from p b (Suc i)
           \<longrightarrow> ((b + p) # sl) ! i = (if i = 0 then b else ((b + p) # sl) ! (i - 1)))
      \<and> b \<le> ((b + p) # sl) ! i \<and> ((b + p) # sl) ! i < 2 * M"
  proof (cases i)
    case 0
    then show ?thesis
      using p b by simp
  next
    case (Suc j)
    then have j: "j < length sl"
      using i by simp
    from rest j have r: "(fibonacci_from b (b + p) (Suc j) < M
           \<longrightarrow> sl ! j = fibonacci_from b (b + p) (Suc (Suc j)))"
      "(M \<le> fibonacci_from b (b + p) (Suc j)
           \<longrightarrow> sl ! j = (if j = 0 then b + p else sl ! (j - 1)))"
      "b + p \<le> sl ! j" "sl ! j < 2 * M"
      unfolding backoff_delays_def by blast+
    have s: "fibonacci_from b (b + p) n = fibonacci_from p b (Suc n)" for n
      by (rule fibonacci_from_shift)
    have prev: "((b + p) # sl) ! j = (if j = 0 then b + p else sl ! (j - 1))"
      by (cases j) simp_all
    show ?thesis
      using r p prev unfolding s Suc by simp
  qed
qed

lemma backoff_delays_stay:
  assumes p: "0 < p" "p \<le> b" and b: "M \<le> b" "b < 2 * M"
    and rest: "backoff_delays p b M sl"
  shows "backoff_delays p b M (b # sl)"
  unfolding backoff_delays_def
proof (intro allI impI)
  fix i
  assume i: "i < length (b # sl)"
  have big: "M \<le> fibonacci_from p b (Suc n)" for n
    using fibonacci_from_ge_backoff [of p b n] p b by simp
  show "(fibonacci_from p b (Suc i) < M \<longrightarrow> (b # sl) ! i = fibonacci_from p b (Suc (Suc i)))
      \<and> (M \<le> fibonacci_from p b (Suc i)
           \<longrightarrow> (b # sl) ! i = (if i = 0 then b else (b # sl) ! (i - 1)))
      \<and> b \<le> (b # sl) ! i \<and> (b # sl) ! i < 2 * M"
  proof (cases i)
    case 0
    then show ?thesis
      using b big [of 0] by simp
  next
    case (Suc j)
    then have j: "j < length sl"
      using i by simp
    from rest j big [of j] have r: "sl ! j = (if j = 0 then b else sl ! (j - 1))"
      "b \<le> sl ! j" "sl ! j < 2 * M"
      unfolding backoff_delays_def by blast+
    have prev: "(b # sl) ! j = (if j = 0 then b else sl ! (j - 1))"
      by (cases j) simp_all
    show ?thesis
      using r prev big [of "Suc j"] unfolding Suc by simp
  qed
qed

lemma polled_return:
  assumes "job (status_calls w) \<noteq> Running"
    and "status_calls w' = Suc (status_calls w)"
  shows "polled (Suc fuel) job w (Some (job_error (job (status_calls w)))) w' 0"
  using assms unfolding polled_def by simp

lemma polled_sleep:
  assumes run: "job (status_calls w) = Running"
    and w1: "status_calls w1 = Suc (status_calls w)"
    and rest: "polled fuel job w1 r w' n"
  shows "polled (Suc fuel) job w r w' (Suc n)"
proof -
  have "job (status_calls w + i) = Running" if "i < Suc n" for i
  proof (cases i)
    case 0
    then show ?thesis using run by simp
  next
    case (Suc j)
    then have "j < n" using that by simp
    then have "job (status_calls w1 + j) = Running"
      using rest unfolding polled_def by blast
    then show ?thesis using Suc w1 by simp
  qed
  moreover have "Suc n = Suc fuel \<and> status_calls w' = status_calls w + Suc n" if "r = None"
    using rest that w1 unfolding polled_def by simp
  moreover have "Suc n < Suc fuel \<and> status_calls w' = status_calls w + Suc n + 1
           \<and> job (status_calls w + Suc n) \<noteq> Running
           \<and> err = job_error (job (status_calls w + Suc n))" if "r = Some err" for err
    using rest that w1 unfolding polled_def by simp
  ultimately show ?thesis
    unfolding polled_def by blast
qed

lemma WaitForJob_loop_sleeps:
  assumes "0 < previous" "previous \<le> backoff" "backoff < 2 * M" "M < 2 ^ 62"
    and "WaitForJob_loop fuel job M backoff previous w = (r, w')"
  shows "\<exists>sl. sleeps w' = sleeps w @ sl \<and> backoff_delays previous backoff M sl
           \<and> polled fuel job w r w' (length sl)"
  using assms
proof (induction fuel arbitrary: backoff previous w)
  case 0
  then have "w' = w" "r = None" by simp_all
  then show ?case
    by (intro exI [of _ "[]"]) (simp add: backoff_delays_def polled_def)
next
  case (Suc fuel)
  let ?w1 = "w\<lparr>status_calls := Suc (status_calls w)\<rparr>"
  have w1: "status_calls ?w1 = Suc (status_calls w)"
    by simp
  show ?case
  proof (cases "job (status_calls w) = Running")
    case False
    then have ret: "w' = ?w1" "r = Some (job_error (job (status_calls w)))"
      using Suc.prems(5) by (auto simp: Let_def split: JobStatus.splits)
    have "polled (Suc fuel) job w r w' 0"
      unfolding ret using False by (intro polled_return) simp_all
    then show ?thesis
      using ret(1) by (intro exI [of _ "[]"]) (simp add: backoff_delays_def)
  next
    case True
    show ?thesis
    proof (cases "backoff < M")
      case True
      let ?b = "backoff + previous"
      have "in_int64 ?b"
        using Suc.prems(1-4) True by (simp add: in_int64_def)
      then have wr: "wrap64 ?b = ?b"
        by (rule wrap64_id)
      have rec: "WaitForJob_loop fuel job M ?b backoff (Sleep ?b ?w1) = (r, w')"
        using Suc.prems(5) \<open>job (status_calls w) = Running\<close> True by (simp add: Let_def wr)
      have "\<exists>sl. sleeps w' = sleeps (Sleep ?b ?w1) @ sl \<and> backoff_delays backoff ?b M sl
              \<and> polled fuel job (Sleep ?b ?w1) r w' (length sl)"
        using Suc.prems(1-4) True by (intro Suc.IH [OF _ _ _ _ rec]) simp_all
      then obtain sl where sl: "sleeps w' = sleeps (Sleep ?b ?w1) @ sl"
        "backoff_delays backoff ?b M sl" "polled fuel job (Sleep ?b ?w1) r w' (length sl)"
        by blast
      have "backoff_delays previous backoff M (?b # sl)"
        using Suc.prems(1,2) True sl(2) by (rule backoff_delays_grow)
      moreover have "polled (Suc fuel) job w r w' (length (?b # sl))"
        using polled_sleep [OF \<open>job (status_calls w) = Running\<close> _ sl(3)]
        by (simp add: Sleep_def)
      ultimately show ?thesis
        using sl(1) by (intro exI [of _ "?b # sl"]) (simp add: Sleep_def)
    next
      case False
      have rec: "WaitForJob_loop fuel job M backoff previous (Sleep backoff ?w1) = (r, w')"
        using Suc.prems(5) \<open>job (status_calls w) = Running\<close> False by (simp add: Let_def)
      have "\<exists>sl. sleeps w' = sleeps (Sleep backoff ?w1) @ sl \<and> backoff_delays previous backoff M sl
              \<and> polled fuel job (Sleep backoff ?w1) r w' (length sl)"
        using Suc.prems(1-4) by (intro Suc.IH [OF _ _ _ _ rec])
      then obtain sl where sl: "sleeps w' = sleeps (Sleep backoff ?w1) @ sl"
        "backoff_delays previous backoff M sl"
        "polled fuel job (Sleep backoff ?w1) r w' (length sl)"
        by blast
      have "backoff_delays previous backoff M (backoff # sl)"
        using Suc.prems(1,2) False Suc.prems(3) sl(2) by (intro backoff_delays_stay) simp_all
      moreover have "polled (Suc fuel) job w r w' (length (backoff # sl))"
        using polled_sleep [OF \<open>job (status_calls w) = Running\<close> _ sl(3)]
        by (simp add: Sleep_def)
      ultimately show ?thesis
        using sl(1) by (intro exI [of _ "backoff # sl"]) (simp add: Sleep_def)
    qed
  qed
qed


text \<open>
  C4 as the code has it.  \<open>WaitForJob\<close> starts with backoff and previous at 10 ms and,
  after a poll that finds the job running, first advances the backoff (while it is below
  \<open>maxBackoff\<close>) and then sleeps it.  The sleeps lie between the polls: every poll that
  finds the job running is followed by exactly one sleep, and the wait returns, without
  another sleep, at the first poll that does not find the job running, with the error of
  that poll; so a run that returns after \<open>n\<close> sleeps has polled \<open>n + 1\<close> times, and a run
  that has not returned has polled and slept as often as it has fuel.  For \<open>maxBackoff\<close>
  above 10 ms the delays are 20 ms, 30 ms, 50 ms, \<dots>, the sequence 10, 10, 20, 30, 50,
  \<dots> from its third term on; the first sleep, if any, is 20 ms; the delay grows until the
  backoff is at least \<open>maxBackoff\<close> and repeats from then on, so that a delay can exceed
  \<open>maxBackoff\<close> but stays below twice \<open>maxBackoff\<close>.
\<close>

theorem WaitForJob_fibonacci_backoff:
  assumes "10 * Millisecond < maxBackoff" "maxBackoff < 2 ^ 62"
    and "WaitForJob fuel job maxBackoff w = (r, w')"
  shows "\<exists>sl. sleeps w' = sleeps w @ sl
           \<and> (\<forall>i < length sl.
                 (fibonacci_delay (Suc i) < maxBackoff \<longrightarrow> sl ! i = fibonacci_delay (Suc (Suc i)))
               \<and> (maxBackoff \<le> fibonacci_delay (Suc i) \<longrightarrow> 0 < i \<and> sl ! i = sl ! (i - 1))
               \<and> sl ! i < 2 * maxBackoff)
           \<and> (sl \<noteq> [] \<longrightarrow> hd sl = 20 * Millisecond)
           \<and> (\<forall>i < length sl. job (status_calls w + i) = Running)
           \<and> (r = None \<longrightarrow> length sl = fuel \<and> status_calls w' = status_calls w + length sl)
           \<and> (\<forall>err. r = Some err \<longrightarrow>
                 length sl < fuel
               \<and> status_calls w' = status_calls w + length sl + 1
               \<and> job (status_calls w + length sl) \<noteq> Running
               \<and> err = job_error (job (status_calls w + length sl)))"
proof -
  let ?t = "10 * Millisecond"
  have wr: "wrap64 ?t = ?t"
    by (simp add: wrap64_def Millisecond_def)
  have pos: "0 < ?t"
    by (simp add: Millisecond_def)
  have loop: "WaitForJob_loop fuel job maxBackoff ?t ?t w = (r, w')"
    using assms(3) by (simp add: WaitForJob_def wr)
  have "\<exists>sl. sleeps w' = sleeps w @ sl \<and> backoff_delays ?t ?t maxBackoff sl
          \<and> polled fuel job w r w' (length sl)"
    using pos assms(1,2) by (intro WaitForJob_loop_sleeps [OF _ _ _ _ loop]) simp_all
  then obtain sl where sl: "sleeps w' = sleeps w @ sl" "backoff_delays ?t ?t maxBackoff sl"
    "polled fuel job w r w' (length sl)"
    by blast
  have first: "fibonacci_delay (Suc 0) = ?t" "fibonacci_delay (Suc (Suc 0)) = 20 * Millisecond"
    by (simp_all add: fibonacci_delay_def)
  have each: "(fibonacci_delay (Suc i) < maxBackoff \<longrightarrow> sl ! i = fibonacci_delay (Suc (Suc i)))
               \<and> (maxBackoff \<le> fibonacci_delay (Suc i) \<longrightarrow> 0 < i \<and> sl ! i = sl ! (i - 1))
               \<and> sl ! i < 2 * maxBackoff" if "i < length sl" for i
  proof (cases i)
    case 0
    then show ?thesis
      using sl(2) that assms(1) first unfolding backoff_delays_def fibonacci_delay_def by auto
  next
    case (Suc j)
    then show ?thesis
      using sl(2) that unfolding backoff_delays_def fibonacci_delay_def by auto
  qed
  have "hd sl = 20 * Millisecond" if "sl \<noteq> []"
  proof -
    have "0 < length sl"
      using that by simp
    from each [OF this] assms(1) first have "sl ! 0 = 20 * Millisecond"
      by simp
    then show ?thesis
      using that by (simp add: hd_conv_nth)
  qed
  then have delays: "(\<forall>i < length sl.
                 (fibonacci_delay (Suc i) < maxBackoff \<longrightarrow> sl ! i = fibonacci_delay (Suc (Suc i)))
               \<and> (maxBackoff \<le> fibonacci_delay (Suc i) \<longrightarrow> 0 < i \<and> sl ! i = sl ! (i - 1))
               \<and> sl ! i < 2 * maxBackoff)
           \<and> (sl \<noteq> [] \<longrightarrow> hd sl = 20 * Millisecond)"
    using each by blast
  have polls: "(\<forall>i < length sl. job (status_calls w + i) = Running)
           \<and> (r = None \<longrightarrow> length sl = fuel \<and> status_calls w' = status_calls w + length sl)
           \<and> (\<forall>err. r = Some err \<longrightarrow>
                 length sl < fuel
               \<and> status_calls w' = status_calls w + length sl + 1
               \<and> job (status_calls w + length sl) \<noteq> Running
               \<and> err = job_error (job (status_calls w + length sl)))"
    using sl(3) unfolding polled_def .
  show ?thesis
    using sl(1) delays polls by (intro exI [of _ sl]) (intro conjI; blast)
qed

theorem WaitForJob_fibonacci_backoff_witness:
  "10 * Millisecond < 10000 * Millisecond
   \<and> 10000 * Millisecond < 2 ^ 62
   \<and> WaitForJob 20 (job_done_at 3) (10000 * Millisecond) new_world
       = (Some None, snd (WaitForJob 20 (job_done_at 3) (10000 * Millisecond) new_world))
   \<and> sleeps (snd (WaitForJob 20 (job_done_at 3) (10000 * Millisecond) new_world))
       = [20000000, 30000000, 50000000]
   \<and> status_calls (snd (WaitForJob 20 (job_done_at 3) (10000 * Millisecond) new_world)) = 4
   \<and> (\<exists>sl. sleeps (snd (WaitForJob 20 (job_done_at 3) (10000 * Millisecond) new_world))
             = sleeps new_world @ sl
           \<and> (\<forall>i < length sl.
                 (fibonacci_delay (Suc i) < 10000 * Millisecond
                    \<longrightarrow> sl ! i = fibonacci_delay (Suc (Suc i)))
               \<and> (10000 * Millisecond \<le> fibonacci_delay (Suc i)
                    \<longrightarrow> 0 < i \<and> sl ! i = sl ! (i - 1))
               \<and> sl ! i < 2 * (10000 * Millisecond))
           \<and> (sl \<noteq> [] \<longrightarrow> hd sl = 20 * Millisecond)
           \<and> (\<forall>i < length sl. job_done_at 3 (status_calls new_world + i) = Running)
           \<and> ((Some None :: error option option) = None \<longrightarrow>
                 length sl = 20
               \<and> status_calls (snd (WaitForJob 20 (job_done_at 3) (10000 * Millisecond) new_world))
                   = status_calls new_world + length sl)
           \<and> (\<forall>err. (Some None :: error option option) = Some err \<longrightarrow>
                 length sl < 20
               \<and> status_calls (snd (WaitForJob 20 (job_done_at 3) (10000 * Millisecond) new_world))
                   = status_calls new_world + length sl + 1
               \<and> job_done_at 3 (status_calls new_world + length sl) \<noteq> Running
               \<and> err = job_error (job_done_at 3 (status_calls new_world + length sl))))"
proof -
  have a: "10 * Millisecond < 10000 * Millisecond"
    by (simp add: Millisecond_def)
  have b: "10000 * Millisecond < 2 ^ 62"
    by (simp add: Millisecond_def)
  have c: "WaitForJob 20 (job_done_at 3) (10000 * Millisecond) new_world
       = (Some None, snd (WaitForJob 20 (job_done_at 3) (10000 * Millisecond) new_world))"
    by code_simp
  have d: "sleeps (snd (WaitForJob 20 (job_done_at 3) (10000 * Millisecond) new_world))
       = [20000000, 30000000, 50000000]"
    by code_simp
  have e: "status_calls (snd (WaitForJob 20 (job_done_at 3) (10000 * Millisecond) new_world)) = 4"
    by code_simp
  note concl = WaitForJob_fibonacci_backoff [OF a b c]
  show ?thesis
    by (intro conjI a b c d e concl)
qed


text \<open>
  C4 as stated fails.  A job that is done at its sixteenth poll, waited for with
  \<open>maxBackoff\<close> of 10 s, is slept on for 20 ms first, not 10 ms, and for 15.97 s before
  the last poll, which exceeds \<open>maxBackoff\<close>.
\<close>

theorem WaitForJob_backoff_counterexample:
  "fst (WaitForJob 20 (job_done_at 15) (10000 * Millisecond) new_world) = Some None
   \<and> sleeps (snd (WaitForJob 20 (job_done_at 15) (10000 * Millisecond) new_world))
       = [20000000, 30000000, 50000000, 80000000, 130000000, 210000000, 340000000, 550000000,
          890000000, 1440000000, 2330000000, 3770000000, 6100000000, 9870000000, 15970000000]
   \<and> (20000000 :: int) \<noteq> 10 * Millisecond
   \<and> 10000 * Millisecond < (15970000000 :: int)"
  by code_simp


section \<open>Properties of checkDetails\<close>

lemma bit_length_bounds: "0 < n \<Longrightarrow> 2 ^ (bit_length n - 1) \<le> n \<and> n < 2 ^ bit_length n"
proof (induction n rule: bit_length.induct)
  case (1 n)
  show ?case
  proof (cases "n div 2 = 0")
    case True
    then have "n = Suc 0" using 1(2) by linarith
    then show ?thesis
      by (simp add: bit_length.simps [of "Suc 0"] bit_length.simps [of 0])
  next
    case False
    then have ih: "2 ^ (bit_length (n div 2) - 1) \<le> n div 2" "n div 2 < 2 ^ bit_length (n div 2)"
      using 1 by auto
    have bl: "bit_length n = Suc (bit_length (n div 2))"
      using 1(2) by (subst bit_length.simps) simp
    have pos: "0 < bit_length (n div 2)"
      using False by (subst bit_length.simps) simp
    then have "(2::nat) ^ bit_length (n div 2) = 2 * 2 ^ (bit_length (n div 2) - 1)"
      by (cases "bit_length (n div 2)") simp_all
    then show ?thesis
      using ih bl by simp linarith
  qed
qed

lemma bit_length_le:
  assumes "n < 2 ^ k"
  shows "bit_length n \<le> k"
proof (cases "n = 0")
  case True
  then show ?thesis by (simp add: bit_length.simps [of 0])
next
  case False
  then have "2 ^ (bit_length n - 1) \<le> n"
    using bit_length_bounds [of n] by simp
  then have "(2::nat) ^ (bit_length n - 1) < 2 ^ k"
    using assms by linarith
  then have "bit_length n - 1 < k"
    by (simp add: power_strict_increasing_iff)
  then show ?thesis by linarith
qed

lemma bit_length_eq:
  assumes "2 ^ k \<le> n" "n < 2 ^ Suc k"
  shows "bit_length n = Suc k"
proof -
  have npos: "0 < n"
    using assms(1) by (simp add: less_le_trans [of 0 "2 ^ k"])
  have le: "bit_length n \<le> Suc k"
    using assms(2) by (rule bit_length_le)
  have "\<not> bit_length n \<le> k"
  proof
    assume "bit_length n \<le> k"
    then have "(2::nat) ^ bit_length n \<le> 2 ^ k"
      by (intro power_increasing) simp_all
    then show False
      using bit_length_bounds [OF npos] assms(1) by linarith
  qed
  then show ?thesis
    using le by linarith
qed

text \<open>
  Rounding a number of more than 24 bits: the result is a multiple of the unit in the
  last place \<open>e\<close> and lies within half of it.
\<close>

lemma round24_unit:
  assumes big: "2 ^ 24 \<le> n" and small: "n < 2 ^ 42"
  obtains e where "2 \<le> e" "even e" "e \<le> 2 ^ 18" "e dvd 2 ^ 24" "e dvd round24 n"
    "round24 n \<le> n + e div 2" "n \<le> round24 n + e div 2" "e * 2 ^ 23 \<le> n" "n < e * 2 ^ 24"
proof -
  define sh where "sh = bit_length n - 24"
  define e :: nat where "e = 2 ^ sh"
  have npos: "0 < n" using big by (simp add: less_le_trans [of 0 "2 ^ 24"])
  have bl: "2 ^ (bit_length n - 1) \<le> n" "n < 2 ^ bit_length n"
    using bit_length_bounds [OF npos] by simp_all
  have lo: "24 < bit_length n"
  proof (rule ccontr)
    assume "\<not> 24 < bit_length n"
    then have "bit_length n \<le> 24" by simp
    then have "(2::nat) ^ bit_length n \<le> 2 ^ 24"
      by (intro power_increasing) simp_all
    then show False
      using big bl(2) by linarith
  qed
  have hi: "bit_length n \<le> 42"
    using small by (rule bit_length_le)
  have sh: "1 \<le> sh" "sh \<le> 18" "bit_length n = sh + 24"
    using lo hi by (simp_all add: sh_def)
  have e2: "e = 2 * 2 ^ (sh - 1)"
    using sh(1) unfolding e_def by (cases sh) simp_all
  have half: "e div 2 = 2 ^ (sh - 1)"
    using e2 by simp
  have 1: "2 \<le> e" "even e"
    using e2 by simp_all
  have 2: "e \<le> 2 ^ 18"
    unfolding e_def using sh(2) by (intro power_increasing) simp_all
  have 3: "e dvd 2 ^ 24"
    unfolding e_def using sh(2) by (intro le_imp_power_dvd) simp
  have "(2::nat) ^ (bit_length n - 1) = 2 ^ sh * 2 ^ 23"
    using sh(3) by (simp add: power_add)
  then have 8: "e * 2 ^ 23 \<le> n"
    using bl(1) by (simp add: e_def)
  have "(2::nat) ^ bit_length n = 2 ^ sh * 2 ^ 24"
    using sh(3) by (simp add: power_add)
  then have 9: "n < e * 2 ^ 24"
    using bl(2) by (simp add: e_def)
  define q where "q = n div e"
  define r where "r = n mod e"
  have n: "n = q * e + r" and r: "r < e"
    using 1(1) by (simp_all add: q_def r_def)
  have rd: "round24 n = (if e div 2 < r \<or> (r = e div 2 \<and> odd q) then q + 1 else q) * e"
    using big unfolding round24_def Let_def half
    by (simp add: sh_def [symmetric] e_def [symmetric] q_def r_def)
  have 5: "e dvd round24 n"
    by (simp add: rd)
  have eh: "e = 2 * (e div 2)"
    using 1(2) by simp
  have 6: "round24 n \<le> n + e div 2"
  proof (cases "e div 2 < r \<or> (r = e div 2 \<and> odd q)")
    case True
    then have "round24 n = q * e + e" by (auto simp: rd)
    moreover have "e div 2 \<le> r" using True by auto
    ultimately show ?thesis using n eh by linarith
  next
    case False
    then have "round24 n = q * e" by (auto simp: rd)
    then show ?thesis using n by linarith
  qed
  have 7: "n \<le> round24 n + e div 2"
  proof (cases "e div 2 < r \<or> (r = e div 2 \<and> odd q)")
    case True
    then have "round24 n = q * e + e" by (auto simp: rd)
    then show ?thesis using n r by linarith
  next
    case False
    then have "round24 n = q * e" by (auto simp: rd)
    moreover have "r \<le> e div 2" using False by auto
    ultimately show ?thesis using n by linarith
  qed
  from 1 2 3 5 6 7 8 9 show ?thesis
    by (rule that)
qed

lemma multiple_gap:
  fixes e a b :: nat
  assumes "e dvd a" "e dvd b" "a < b"
  shows "a + e \<le> b"
proof -
  have "e dvd b - a"
    using assms(1,2) by (rule dvd_diff_nat [rotated])
  moreover have "0 < b - a"
    using assms(3) by simp
  ultimately have "e \<le> b - a"
    by (rule dvd_imp_le)
  then show ?thesis
    using assms(3) by linarith
qed


lemma round24_small: "n < 2 ^ 24 \<Longrightarrow> round24 n = n"
  by (simp add: round24_def)

lemma less_times_0_99:
  assumes d: "d < 2 ^ 18" and s: "s < 2 ^ 18"
  shows "s * 2 ^ 24 < round24 (float32_0_99 * d) \<longleftrightarrow> 100 * s < 99 * d"
proof (cases "float32_0_99 * d < 2 ^ 24")
  case True
  then have "d \<le> 1"
    by (simp add: float32_0_99_def)
  then consider "d = 0" | "d = 1"
    by linarith
  then show ?thesis
  proof cases
    case 1
    then show ?thesis by (simp add: round24_small)
  next
    case 2
    then show ?thesis by (simp add: round24_small float32_0_99_def) linarith
  qed
next
  case False
  let ?P = "float32_0_99 * d"
  have big: "2 ^ 24 \<le> ?P"
    using False by simp
  have small: "?P < 2 ^ 42"
    using d by (simp add: float32_0_99_def)
  obtain e where e: "2 \<le> e" "even e" "e \<le> 2 ^ 18" "e dvd 2 ^ 24" "e dvd round24 ?P"
    "round24 ?P \<le> ?P + e div 2" "?P \<le> round24 ?P + e div 2" "?P < e * 2 ^ 24"
    using round24_unit [OF big small] by metis
  define h where "h = e div 2"
  have eh: "e = 2 * h"
    using e(2) by (simp add: h_def)
  have P: "?P = 16609444 * d"
    by (simp add: float32_0_99_def)
  have dvdS: "e dvd s * 2 ^ 24"
    using e(4) by (rule dvd_mult)
  show ?thesis
  proof
    assume lt: "s * 2 ^ 24 < round24 ?P"
    have "s * 2 ^ 24 + e \<le> round24 ?P"
      using dvdS e(5) lt by (rule multiple_gap)
    then have 1: "16777216 * s + h \<le> 16609444 * d"
      using e(6) eh P by (simp add: h_def [symmetric])
    have 2: "16609444 * d < 33554432 * h"
      using e(8) eh P by simp
    show "100 * s < 99 * d"
      using 1 2 by linarith
  next
    assume lt: "100 * s < 99 * d"
    show "s * 2 ^ 24 < round24 ?P"
    proof (rule ccontr)
      assume "\<not> s * 2 ^ 24 < round24 ?P"
      then have "16609444 * d \<le> 16777216 * s + h"
        using e(7) P by (simp add: h_def [symmetric])
      moreover have "h \<le> 131072"
        using e(3) eh by simp
      ultimately show False
        using lt by linarith
    qed
  qed
qed

lemma less_times_0_95:
  assumes d: "d < 2 ^ 18" and s: "s < 2 ^ 18"
  shows "s * 2 ^ 24 < round24 (float32_0_95 * d) \<longleftrightarrow> 100 * s < 95 * d"
proof (cases "float32_0_95 * d < 2 ^ 24")
  case True
  then have "d \<le> 1"
    by (simp add: float32_0_95_def)
  then consider "d = 0" | "d = 1"
    by linarith
  then show ?thesis
  proof cases
    case 1
    then show ?thesis by (simp add: round24_small)
  next
    case 2
    then show ?thesis by (simp add: round24_small float32_0_95_def) linarith
  qed
next
  case False
  let ?P = "float32_0_95 * d"
  have big: "2 ^ 24 \<le> ?P"
    using False by simp
  have small: "?P < 2 ^ 42"
    using d by (simp add: float32_0_95_def)
  obtain e where e: "2 \<le> e" "even e" "e \<le> 2 ^ 18" "e dvd 2 ^ 24" "e dvd round24 ?P"
    "round24 ?P \<le> ?P + e div 2" "?P \<le> round24 ?P + e div 2" "?P < e * 2 ^ 24"
    using round24_unit [OF big small] by metis
  define h where "h = e div 2"
  have eh: "e = 2 * h"
    using e(2) by (simp add: h_def)
  have P: "?P = 15938355 * d"
    by (simp add: float32_0_95_def)
  have dvdS: "e dvd s * 2 ^ 24"
    using e(4) by (rule dvd_mult)
  show ?thesis
  proof
    assume lt: "s * 2 ^ 24 < round24 ?P"
    have "s * 2 ^ 24 + e \<le> round24 ?P"
      using dvdS e(5) lt by (rule multiple_gap)
    then have 1: "16777216 * s + h \<le> 15938355 * d"
      using e(6) eh P by (simp add: h_def [symmetric])
    have 2: "1 \<le> h"
      using e(1) eh by simp
    show "100 * s < 95 * d"
      using 1 2 by linarith
  next
    assume lt: "100 * s < 95 * d"
    then have lt5: "20 * s < 19 * d"
      by simp
    show "s * 2 ^ 24 < round24 ?P"
    proof (rule ccontr)
      assume "\<not> s * 2 ^ 24 < round24 ?P"
      then have "15938355 * d \<le> 16777216 * s + h"
        using e(7) P by (simp add: h_def [symmetric])
      moreover have "h \<le> 131072"
        using e(3) eh by simp
      moreover have "d < 262144"
        using d by simp
      ultimately show False
        using lt5 by linarith
    qed
  qed
qed

lemma float32_less_times_counts:
  assumes "0 \<le> a" "a < 2 ^ 24" "0 \<le> b" "b < 2 ^ 24"
  shows "float32_less_times a c b \<longleftrightarrow> nat a * 2 ^ 24 < round24 (c * nat b)"
proof -
  have "nat a < 2 ^ 24"
    using assms(1,2) by simp
  then have a: "float32_of_int a = a"
    using assms(1) by (cases "a = 0") (simp_all add: float32_of_int_def round24_small)
  have "nat b < 2 ^ 24"
    using assms(3,4) by simp
  then have b: "float32_of_int b = b"
    using assms(3) by (cases "b = 0") (simp_all add: float32_of_int_def round24_small)
  have t: "float32_times c b = int (round24 (c * nat b))"
    using assms(3) by (cases "b = 0") (simp_all add: float32_times_def round24_small)
  have "a * 2 ^ 24 = int (nat a * 2 ^ 24)"
    using assms(1) by simp
  then show ?thesis
    unfolding float32_less_times_def a b t by (simp only: of_nat_less_iff)
qed


lemma float32_constants_nearest:
  "\<bar>99 / 100 - rat_of_nat float32_0_99 / 2 ^ 24\<bar> < 1 / 2 ^ 25
   \<and> \<bar>95 / 100 - rat_of_nat float32_0_95 / 2 ^ 24\<bar> < 1 / 2 ^ 25"
  by (simp add: float32_0_99_def float32_0_95_def)

text \<open>
  C6 as the code has it.  The comparisons of \<open>checkDetails\<close> are made in \<open>float32\<close>.
  For task and test counts from 0 up to \<open>2\<^sup>1\<^sup>8 - 1 = 262143\<close> they agree with the exact
  ones: \<open>checkDetails\<close> returns \<open>ErrTooFewTasks\<close> when the source has fewer than 0.99
  times the task files of the destination, otherwise \<open>ErrTooFewTests\<close> when it has fewer
  than 0.95 times the tests, otherwise nil; so it succeeds if and only if both
  thresholds are met.
\<close>

theorem checkDetails_thresholds:
  assumes "0 \<le> TaskFileCount src" "TaskFileCount src < 262144"
    and "0 \<le> TaskFileCount dest" "TaskFileCount dest < 262144"
    and "0 \<le> TestCount src" "TestCount src < 262144"
    and "0 \<le> TestCount dest" "TestCount dest < 262144"
  shows "checkDetails src dest
           = (if 100 * TaskFileCount src < 99 * TaskFileCount dest then Some ErrTooFewTasks
              else if 100 * TestCount src < 95 * TestCount dest then Some ErrTooFewTests
              else None)
         \<and> (checkDetails src dest = None
              \<longleftrightarrow> 99 * TaskFileCount dest \<le> 100 * TaskFileCount src
                \<and> 95 * TestCount dest \<le> 100 * TestCount src)"
proof -
  have tasks: "float32_less_times (TaskFileCount src) float32_0_99 (TaskFileCount dest)
                 \<longleftrightarrow> 100 * TaskFileCount src < 99 * TaskFileCount dest"
  proof -
    have "float32_less_times (TaskFileCount src) float32_0_99 (TaskFileCount dest)
            \<longleftrightarrow> nat (TaskFileCount src) * 2 ^ 24
                  < round24 (float32_0_99 * nat (TaskFileCount dest))"
      using assms(1-4) by (intro float32_less_times_counts) simp_all
    also have "\<dots> \<longleftrightarrow> 100 * nat (TaskFileCount src) < 99 * nat (TaskFileCount dest)"
      using assms(1-4) by (intro less_times_0_99) simp_all
    also have "\<dots> \<longleftrightarrow> 100 * TaskFileCount src < 99 * TaskFileCount dest"
      using assms(1,3) by linarith
    finally show ?thesis .
  qed
  have tests: "float32_less_times (TestCount src) float32_0_95 (TestCount dest)
                 \<longleftrightarrow> 100 * TestCount src < 95 * TestCount dest"
  proof -
    have "float32_less_times (TestCount src) float32_0_95 (TestCount dest)
            \<longleftrightarrow> nat (TestCount src) * 2 ^ 24 < round24 (float32_0_95 * nat (TestCount dest))"
      using assms(5-8) by (intro float32_less_times_counts) simp_all
    also have "\<dots> \<longleftrightarrow> 100 * nat (TestCount src) < 95 * nat (TestCount dest)"
      using assms(5-8) by (intro less_times_0_95) simp_all
    also have "\<dots> \<longleftrightarrow> 100 * TestCount src < 95 * TestCount dest"
      using assms(5,7) by linarith
    finally show ?thesis .
  qed
  show ?thesis
    unfolding checkDetails_def tasks tests by auto
qed

theorem checkDetails_thresholds_witness:
  "checkDetails \<lparr>PartitionID = ''20170516'', TaskFileCount = 95, TestCount = 1000\<rparr>
                \<lparr>PartitionID = ''20170516'', TaskFileCount = 100, TestCount = 1000\<rparr>
     = Some ErrTooFewTasks
   \<and> checkDetails \<lparr>PartitionID = ''20170516'', TaskFileCount = 99, TestCount = 950\<rparr>
                  \<lparr>PartitionID = ''20170516'', TaskFileCount = 100, TestCount = 1000\<rparr>
     = None
   \<and> checkDetails \<lparr>PartitionID = ''20170516'', TaskFileCount = 99, TestCount = 949\<rparr>
                  \<lparr>PartitionID = ''20170516'', TaskFileCount = 100, TestCount = 1000\<rparr>
     = Some ErrTooFewTests"
proof -
  let ?d = "\<lparr>PartitionID = ''20170516'', TaskFileCount = 100, TestCount = 1000\<rparr>"
  let ?a = "\<lparr>PartitionID = ''20170516'', TaskFileCount = 95, TestCount = 1000\<rparr>"
  let ?b = "\<lparr>PartitionID = ''20170516'', TaskFileCount = 99, TestCount = 950\<rparr>"
  let ?c = "\<lparr>PartitionID = ''20170516'', TaskFileCount = 99, TestCount = 949\<rparr>"
  have a: "checkDetails ?a ?d
           = (if 100 * TaskFileCount ?a < 99 * TaskFileCount ?d then Some ErrTooFewTasks
              else if 100 * TestCount ?a < 95 * TestCount ?d then Some ErrTooFewTests
              else None)"
    by (rule checkDetails_thresholds [THEN conjunct1]) simp_all
  have b: "checkDetails ?b ?d
           = (if 100 * TaskFileCount ?b < 99 * TaskFileCount ?d then Some ErrTooFewTasks
              else if 100 * TestCount ?b < 95 * TestCount ?d then Some ErrTooFewTests
              else None)"
    by (rule checkDetails_thresholds [THEN conjunct1]) simp_all
  have c: "checkDetails ?c ?d
           = (if 100 * TaskFileCount ?c < 99 * TaskFileCount ?d then Some ErrTooFewTasks
              else if 100 * TestCount ?c < 95 * TestCount ?d then Some ErrTooFewTests
              else None)"
    by (rule checkDetails_thresholds [THEN conjunct1]) simp_all
  show ?thesis
    unfolding a b c by simp
qed


text \<open>
  C6 as stated fails for larger counts, where \<open>float32\<close> rounds.  A source with 262151
  task files against a destination with 264799 is below 0.99 times the destination, and
  a source with 1048590 tests against 1103779 is below 0.95 times; \<open>checkDetails\<close>
  succeeds on both.
\<close>

theorem checkDetails_float32_counterexample:
  "checkDetails \<lparr>PartitionID = ''20170516'', TaskFileCount = 262151, TestCount = 0\<rparr>
                \<lparr>PartitionID = ''20170516'', TaskFileCount = 264799, TestCount = 0\<rparr> = None
   \<and> (100 * 262151 :: int) < 99 * 264799
   \<and> checkDetails \<lparr>PartitionID = ''20170516'', TaskFileCount = 0, TestCount = 1048590\<rparr>
                  \<lparr>PartitionID = ''20170516'', TaskFileCount = 0, TestCount = 1103779\<rparr> = None
   \<and> (100 * 1048590 :: int) < 95 * 1103779"
proof -
  have b1: "bit_length 4398164161756 = Suc 42"
    by (rule bit_length_eq) simp_all
  have r1: "round24 (float32_0_99 * 264799) = 4398163951616"
    by (simp add: round24_def float32_0_99_def b1 Let_def)
  have b2: "bit_length 17592421543545 = Suc 44"
    by (rule bit_length_eq) simp_all
  have r2: "round24 (float32_0_95 * 1103779) = 17592420925440"
    by (simp add: round24_def float32_0_95_def b2 Let_def)
  have zero: "\<not> float32_less_times 0 c 0" for c
    by (simp add: float32_less_times_def float32_of_int_def float32_times_def round24_small)
  have "float32_less_times 262151 float32_0_99 264799
          \<longleftrightarrow> nat 262151 * 2 ^ 24 < round24 (float32_0_99 * nat 264799)"
    by (rule float32_less_times_counts) simp_all
  then have tasks: "\<not> float32_less_times 262151 float32_0_99 264799"
    by (simp add: r1)
  have "float32_less_times 1048590 float32_0_95 1103779
          \<longleftrightarrow> nat 1048590 * 2 ^ 24 < round24 (float32_0_95 * nat 1103779)"
    by (rule float32_less_times_counts) simp_all
  then have tests: "\<not> float32_less_times 1048590 float32_0_95 1103779"
    by (simp add: r2)
  show ?thesis
    using zero tasks tests by (simp add: checkDetails_def)
qed


section \<open>Properties of ValidateTestPath\<close>

lemma DecodeRuneInString_ascii:
  "(of_char x :: int) < 0x80 \<Longrightarrow> DecodeRuneInString (x # xs) = (of_char x, 1)"
  by simp

lemma DecodeRuneInString_width:
  "1 \<le> snd (DecodeRuneInString (x # xs)) \<and> snd (DecodeRuneInString (x # xs)) \<le> length (x # xs)"
  by (simp add: Let_def split: list.splits)

lemma rune2_ge:
  fixes a b :: int
  assumes "0xC2 \<le> a" "a < 0xE0"
  shows "0x80 \<le> a mod 0x20 * 0x40 + b mod 0x40"
proof -
  have "2 \<le> a mod 0x20"
    using assms by presburger
  moreover have "0 \<le> b mod 0x40"
    by simp
  ultimately show ?thesis
    by linarith
qed

lemma rune3_ge:
  fixes a b c :: int
  assumes "0xE0 \<le> a" "a < 0xF0" "accept_lo a \<le> b" "b \<le> accept_hi a"
  shows "0x80 \<le> a mod 0x10 * 0x1000 + b mod 0x40 * 0x40 + c mod 0x40"
proof -
  have c: "0 \<le> c mod 0x40" and b: "0 \<le> b mod 0x40" and a: "0 \<le> a mod 0x10"
    by simp_all
  show ?thesis
  proof (cases "a = 0xE0")
    case True
    then have "0xA0 \<le> b" "b \<le> 0xBF"
      using assms(3,4) by (simp_all add: accept_lo_def accept_hi_def)
    then have "0x20 \<le> b mod 0x40"
      by presburger
    then show ?thesis
      using a c by linarith
  next
    case False
    then have "1 \<le> a mod 0x10"
      using assms(1,2) by presburger
    then show ?thesis
      using b c by linarith
  qed
qed

lemma rune4_ge:
  fixes a b c d :: int
  assumes "0xF0 \<le> a" "a \<le> 0xF4" "accept_lo a \<le> b" "b \<le> accept_hi a"
  shows "0x80 \<le> a mod 0x08 * 0x40000 + b mod 0x40 * 0x1000 + c mod 0x40 * 0x40 + d mod 0x40"
proof -
  have d: "0 \<le> d mod 0x40" and c: "0 \<le> c mod 0x40" and b: "0 \<le> b mod 0x40"
    and a: "0 \<le> a mod 0x08"
    by simp_all
  show ?thesis
  proof (cases "a = 0xF0")
    case True
    then have "0x90 \<le> b" "b \<le> 0xBF"
      using assms(3,4) by (simp_all add: accept_lo_def accept_hi_def)
    then have "0x10 \<le> b mod 0x40"
      by presburger
    then show ?thesis
      using a c d by linarith
  next
    case False
    then have "1 \<le> a mod 0x08"
      using assms(1,2) by presburger
    then show ?thesis
      using b c d by linarith
  qed
qed

lemma DecodeRuneInString_not_ascii:
  assumes "\<not> (of_char x :: int) < 0x80"
  shows "0x80 \<le> fst (DecodeRuneInString (x # xs))"
  using assms
  by (simp add: Let_def RuneError_def rune2_ge rune3_ge rune4_ge split: list.splits)

declare DecodeRuneInString.simps [simp del]

lemma mem_Bol:
  "(p', s', c') \<in> set (rmatch Bol (p, s, c)) \<longleftrightarrow> p = 0 \<and> p' = p \<and> s' = s \<and> c' = c"
  by auto

lemma mem_Eol:
  "(p', s', c') \<in> set (rmatch Eol (p, s, c)) \<longleftrightarrow> s = [] \<and> p' = p \<and> s' = s \<and> c' = c"
  by auto

lemma mem_Eps:
  "(p', s', c') \<in> set (rmatch Eps (p, s, c)) \<longleftrightarrow> p' = p \<and> s' = s \<and> c' = c"
  by auto

lemma mem_Cls:
  "(p', s', c') \<in> set (rmatch (Cls k) (p, s, c))
     \<longleftrightarrow> s \<noteq> [] \<and> in_cls k (fst (DecodeRuneInString s))
          \<and> p' = p + snd (DecodeRuneInString s) \<and> s' = drop (snd (DecodeRuneInString s)) s
          \<and> c' = c"
proof (cases s)
  case Nil
  then show ?thesis by simp
next
  case (Cons x xs)
  obtain r n where d: "DecodeRuneInString (x # xs) = (r, n)"
    by (cases "DecodeRuneInString (x # xs)")
  have "1 \<le> n"
    using DecodeRuneInString_width [of x xs] d by simp
  then have "drop (n - 1) xs = drop n (x # xs)"
    by (cases n) simp_all
  then show ?thesis
    using Cons d by auto
qed

lemma mem_Cls_ascii:
  assumes "\<And>r. in_cls k r \<Longrightarrow> r < 0x80"
  shows "(p', s', c') \<in> set (rmatch (Cls k) (p, s, c))
     \<longleftrightarrow> (\<exists>x. s = x # s' \<and> in_cls k (of_char x) \<and> p' = Suc p \<and> c' = c)"
proof (cases s)
  case Nil
  then show ?thesis by simp
next
  case (Cons x xs)
  show ?thesis
  proof (cases "(of_char x :: int) < 0x80")
    case True
    then have "DecodeRuneInString (x # xs) = (of_char x, 1)"
      by (rule DecodeRuneInString_ascii)
    then show ?thesis
      unfolding mem_Cls Cons by auto
  next
    case False
    then have "0x80 \<le> fst (DecodeRuneInString (x # xs))"
      by (rule DecodeRuneInString_not_ascii)
    then have "\<not> in_cls k (fst (DecodeRuneInString (x # xs)))"
      using assms [of "fst (DecodeRuneInString (x # xs))"] by auto
    moreover have "\<not> in_cls k (of_char x)"
      using assms [of "of_char x"] False by auto
    ultimately show ?thesis
      unfolding mem_Cls Cons by auto
  qed
qed

lemma mem_Seq:
  "(p', s', c') \<in> set (rmatch (Seq a b) (p, s, c))
     \<longleftrightarrow> (\<exists>p1 s1 c1. (p1, s1, c1) \<in> set (rmatch a (p, s, c))
                      \<and> (p', s', c') \<in> set (rmatch b (p1, s1, c1)))"
  by auto

lemma mem_Alt:
  "(p', s', c') \<in> set (rmatch (Alt a b) (p, s, c))
     \<longleftrightarrow> (p', s', c') \<in> set (rmatch a (p, s, c)) \<or> (p', s', c') \<in> set (rmatch b (p, s, c))"
  by auto

lemma mem_Group:
  "(p', s', c') \<in> set (rmatch (Group n r) (p, s, c))
     \<longleftrightarrow> (\<exists>c0. (p', s', c0) \<in> set (rmatch r (p, s, c)) \<and> c' = (n, take (p' - p) s) # c0)"
proof
  assume "(p', s', c') \<in> set (rmatch (Group n r) (p, s, c))"
  then obtain x where x: "x \<in> set (rmatch r (p, s, c))"
    and e: "(p', s', c') = (case x of (p', s', c') \<Rightarrow> (p', s', (n, take (p' - p) s) # c'))"
    by auto
  obtain p1 s1 c1 where "x = (p1, s1, c1)"
    by (cases x)
  then show "\<exists>c0. (p', s', c0) \<in> set (rmatch r (p, s, c)) \<and> c' = (n, take (p' - p) s) # c0"
    using x e by auto
next
  assume "\<exists>c0. (p', s', c0) \<in> set (rmatch r (p, s, c)) \<and> c' = (n, take (p' - p) s) # c0"
  then obtain c0 where m: "(p', s', c0) \<in> set (rmatch r (p, s, c))"
    and c': "c' = (n, take (p' - p) s) # c0"
    by blast
  have "(p', s', c') = (case (p', s', c0) of (p', s', c') \<Rightarrow> (p', s', (n, take (p' - p) s) # c'))"
    using c' by simp
  then have "(p', s', c') \<in> (\<lambda>(p', s', c'). (p', s', (n, take (p' - p) s) # c')) ` set (rmatch r (p, s, c))"
    using m by (rule image_eqI)
  then show "(p', s', c') \<in> set (rmatch (Group n r) (p, s, c))"
    by simp
qed

lemma mem_seqs_Nil:
  "(p', s', c') \<in> set (rmatch (seqs []) (p, s, c)) \<longleftrightarrow> p' = p \<and> s' = s \<and> c' = c"
  by (auto simp: seqs_def)

lemma mem_seqs_Cons:
  "(p', s', c') \<in> set (rmatch (seqs (r # rs)) (p, s, c))
     \<longleftrightarrow> (\<exists>p1 s1 c1. (p1, s1, c1) \<in> set (rmatch r (p, s, c))
                      \<and> (p', s', c') \<in> set (rmatch (seqs rs) (p1, s1, c1)))"
  by (auto simp: seqs_def)

lemma mem_lit:
  assumes "list_all (\<lambda>x. (of_char x :: int) < 0x80) w"
  shows "(p', s', c') \<in> set (rmatch (lit w) (p, s, c))
           \<longleftrightarrow> s = w @ s' \<and> p' = p + length w \<and> c' = c"
  using assms
proof (induction w arbitrary: p s)
  case Nil
  then show ?case by (auto simp: lit_def)
next
  case (Cons x w)
  have l: "lit (x # w) = Seq (Cls (OneOf [x])) (lit w)"
    by (simp add: lit_def)
  have x: "(of_char x :: int) < 0x80" and w: "list_all (\<lambda>x. (of_char x :: int) < 0x80) w"
    using Cons.prems by simp_all
  have c: "(p1, s1, c1) \<in> set (rmatch (Cls (OneOf [x])) (p, s, c))
           \<longleftrightarrow> s = x # s1 \<and> p1 = Suc p \<and> c1 = c" for p1 s1 c1
    using x by (subst mem_Cls_ascii) auto
  show ?case
    unfolding l mem_Seq c by (auto simp: Cons.IH [OF w])
qed

lemma mem_Cls_src:
  "(p', s', c') \<in> set (rmatch (Cls (Digit)) (p, s, c))
     \<longleftrightarrow> (\<exists>x. s = x # s' \<and> in_cls (Digit) (of_char x) \<and> p' = Suc p \<and> c' = c)"
  "(p', s', c') \<in> set (rmatch (Cls (Alpha)) (p, s, c))
     \<longleftrightarrow> (\<exists>x. s = x # s' \<and> in_cls (Alpha) (of_char x) \<and> p' = Suc p \<and> c' = c)"
  "(p', s', c') \<in> set (rmatch (Cls (OneOf ''01'')) (p, s, c))
     \<longleftrightarrow> (\<exists>x. s = x # s' \<and> in_cls (OneOf ''01'') (of_char x) \<and> p' = Suc p \<and> c' = c)"
  "(p', s', c') \<in> set (rmatch (Cls (OneOf ''0123'')) (p, s, c))
     \<longleftrightarrow> (\<exists>x. s = x # s' \<and> in_cls (OneOf ''0123'') (of_char x) \<and> p' = Suc p \<and> c' = c)"
  "(p', s', c') \<in> set (rmatch (Cls (Either Digit (OneOf ''t''))) (p, s, c))
     \<longleftrightarrow> (\<exists>x. s = x # s' \<and> in_cls (Either Digit (OneOf ''t'')) (of_char x) \<and> p' = Suc p \<and> c' = c)"
  by (rule mem_Cls_ascii; auto)+

lemma mem_lit_src:
  "(p', s', c') \<in> set (rmatch (lit ''gs://'') (p, s, c))
     \<longleftrightarrow> s = ''gs://'' @ s' \<and> p' = p + length ''gs://'' \<and> c' = c"
  "(p', s', c') \<in> set (rmatch (lit ''/'') (p, s, c))
     \<longleftrightarrow> s = ''/'' @ s' \<and> p' = p + length ''/'' \<and> c' = c"
  "(p', s', c') \<in> set (rmatch (lit ''T'') (p, s, c))
     \<longleftrightarrow> s = ''T'' @ s' \<and> p' = p + length ''T'' \<and> c' = c"
  "(p', s', c') \<in> set (rmatch (lit ''Z'') (p, s, c))
     \<longleftrightarrow> s = ''Z'' @ s' \<and> p' = p + length ''Z'' \<and> c' = c"
  "(p', s', c') \<in> set (rmatch (lit ''-'') (p, s, c))
     \<longleftrightarrow> s = ''-'' @ s' \<and> p' = p + length ''-'' \<and> c' = c"
  "(p', s', c') \<in> set (rmatch (lit ''mlab'') (p, s, c))
     \<longleftrightarrow> s = ''mlab'' @ s' \<and> p' = p + length ''mlab'' \<and> c' = c"
  "(p', s', c') \<in> set (rmatch (lit ''.tar'') (p, s, c))
     \<longleftrightarrow> s = ''.tar'' @ s' \<and> p' = p + length ''.tar'' \<and> c' = c"
  "(p', s', c') \<in> set (rmatch (lit ''gz'') (p, s, c))
     \<longleftrightarrow> s = ''gz'' @ s' \<and> p' = p + length ''gz'' \<and> c' = c"
  "(p', s', c') \<in> set (rmatch (lit ''.tgz'') (p, s, c))
     \<longleftrightarrow> s = ''.tgz'' @ s' \<and> p' = p + length ''.tgz'' \<and> c' = c"
  by (rule mem_lit; simp)+

lemma mem_repeated_Suc:
  "(p', s', c') \<in> set (rmatch (repeated (Suc n) r) (p, s, c))
     \<longleftrightarrow> (\<exists>p1 s1 c1. (p1, s1, c1) \<in> set (rmatch r (p, s, c))
                      \<and> (p', s', c') \<in> set (rmatch (repeated n r) (p1, s1, c1)))"
  by auto

lemma mem_repeated_0:
  "(p', s', c') \<in> set (rmatch (repeated 0 r) (p, s, c)) \<longleftrightarrow> p' = p \<and> s' = s \<and> c' = c"
  by auto

lemma mem_star:
  "(p', s', c') \<in> set (star k p s c) \<Longrightarrow> \<exists>w. s = w @ s' \<and> p' = p + length w \<and> c' = c"
proof (induction k p s c rule: star.induct)
  case (1 k p c)
  then show ?case by simp
next
  case (2 k p x xs c)
  obtain r n where d: "DecodeRuneInString (x # xs) = (r, n)"
    by (cases "DecodeRuneInString (x # xs)")
  have n: "1 \<le> n" "n \<le> length (x # xs)"
    using DecodeRuneInString_width [of x xs] d by simp_all
  then have dr: "drop (n - 1) xs = drop n (x # xs)"
    by (cases n) simp_all
  show ?case
  proof (cases "(p', s', c') = (p, x # xs, c)")
    case True
    then show ?thesis by simp
  next
    case False
    then have r: "in_cls k r" and m: "(p', s', c') \<in> set (star k (p + n) (drop (n - 1) xs) c)"
      using "2.prems" d by (auto split: if_splits)
    from "2.IH" [OF d [symmetric] r m]
    obtain w where w: "drop (n - 1) xs = w @ s'" "p' = p + n + length w" "c' = c"
      by blast
    have "x # xs = take n (x # xs) @ w @ s'"
      using w(1) dr by (metis append_take_drop_id)
    moreover have "length (take n (x # xs) @ w) = n + length w"
      using n(2) by simp
    ultimately show ?thesis
      using w(2,3) by (intro exI [of _ "take n (x # xs) @ w"]) simp
  qed
qed

lemma mem_Star_Group:
  assumes "(p', s', c') \<in> set (rmatch (Group n (Star k)) (p, s, c))"
  shows "\<exists>w. s = w @ s' \<and> c' = (n, w) # c"
proof -
  from assms obtain c0 where m: "(p', s', c0) \<in> set (star k p s c)"
    and c': "c' = (n, take (p' - p) s) # c0"
    by auto
  from mem_star [OF m] obtain w where "s = w @ s'" "p' = p + length w" "c0 = c"
    by blast
  then show ?thesis
    using c' by (intro exI [of _ w]) simp
qed

lemma repeated_unfold:
  "repeated 3 r = Seq r (Seq r (Seq r Eps))"
  "repeated 4 r = Seq r (Seq r (Seq r (Seq r Eps)))"
  "repeated 6 r = Seq r (Seq r (Seq r (Seq r (Seq r (Seq r Eps)))))"
  by (simp_all add: numeral_eq_Suc)

lemmas mem_unfold = mem_Bol mem_Eol mem_Eps mem_Cls_src mem_Seq mem_Alt mem_Group
  mem_seqs_Nil mem_seqs_Cons mem_lit_src repeated_unfold

lemma start_sound:
  assumes "(p', s', c') \<in> set (rmatch start (p, s, c))"
  shows "p = 0 \<and> (\<exists>pre e. s = ''gs://'' @ pre @ ''/'' @ e @ ''/'' @ s' \<and> c' = (2, e) # (1, pre) # c)"
proof -
  from assms obtain p1 s1 c1 p2 s2 c2 p3 s3 c3 p4 s4 c4 p5 s5 c5
    where 1: "(p1, s1, c1) \<in> set (rmatch Bol (p, s, c))"
      and 2: "(p2, s2, c2) \<in> set (rmatch (lit ''gs://'') (p1, s1, c1))"
      and 3: "(p3, s3, c3) \<in> set (rmatch (Group 1 (Star Dot)) (p2, s2, c2))"
      and 4: "(p4, s4, c4) \<in> set (rmatch (lit ''/'') (p3, s3, c3))"
      and 5: "(p5, s5, c5) \<in> set (rmatch (Group 2 (Star (NoneOf ''/''))) (p4, s4, c4))"
      and 6: "(p', s', c') \<in> set (rmatch (lit ''/'') (p5, s5, c5))"
    unfolding start_def mem_seqs_Cons mem_seqs_Nil by blast
  from 1 have a: "p = 0" "s1 = s" "c1 = c"
    unfolding mem_Bol by simp_all
  from 2 have b: "s1 = ''gs://'' @ s2" "c2 = c1"
    unfolding mem_lit_src by simp_all
  from mem_Star_Group [OF 3] obtain pre where d: "s2 = pre @ s3" "c3 = (1, pre) # c2"
    by blast
  from 4 have e: "s3 = ''/'' @ s4" "c4 = c3"
    unfolding mem_lit_src by simp_all
  from mem_Star_Group [OF 5] obtain ex where f: "s4 = ex @ s5" "c5 = (2, ex) # c4"
    by blast
  from 6 have g: "s5 = ''/'' @ s'" "c' = c5"
    unfolding mem_lit_src by simp_all
  have "s = ''gs://'' @ pre @ ''/'' @ ex @ ''/'' @ s'"
    using a(2) b(1) d(1) e(1) f(1) g(1) by simp
  moreover have "c' = (2, ex) # (1, pre) # c"
    using a(3) b(2) d(2) e(2) f(2) g(2) by simp
  ultimately show ?thesis
    using a(1) by blast
qed

lemma datePath_sound:
  assumes "(p', s', c') \<in> set (rmatch datePath (p, s, c))"
  shows "\<exists>d. s = d @ ''/'' @ s' \<and> is_date_path d \<and> c' = (3, d) # c"
  using assms unfolding datePath_def mem_unfold
  apply (elim exE conjE)
  apply hypsubst
  apply (simp add: is_date_path_def)
  done

lemma dateTime_sound:
  assumes "(p', s', c') \<in> set (rmatch dateTime (p, s, c))"
  shows "\<exists>d t. s = d @ ''T'' @ t @ ''Z'' @ s' \<and> is_packed_date d \<and> length t = 6
           \<and> c' = (4, d) # c"
  using assms unfolding dateTime_def mem_unfold
  apply (elim exE conjE)
  apply hypsubst
  apply (simp add: is_packed_date_def)
  done

lemma mlabN_podNN_sound:
  assumes "(p', s', c') \<in> set (rmatch mlabN_podNN (p, s, c))"
  shows "\<exists>h pd. s = ''-'' @ h @ ''-'' @ pd @ ''-'' @ s' \<and> c' = (6, pd) # (5, h) # c"
  using assms unfolding mlabN_podNN_def mem_unfold
  apply (elim exE conjE)
  apply hypsubst
  apply simp
  done

lemma digits4_sound:
  assumes "(p', s', c') \<in> set (rmatch (Group 8 (repeated 4 (Cls Digit))) (p, s, c))"
  shows "\<exists>n. s = n @ s' \<and> c' = (8, n) # c"
  using assms unfolding mem_unfold
  apply (elim exE conjE)
  apply hypsubst
  apply simp
  done

lemma exp_NNNN_sound:
  assumes "(p', s', c') \<in> set (rmatch exp_NNNN (p, s, c))"
  shows "\<exists>e n. s = e @ ''-'' @ n @ s' \<and> c' = (8, n) # (7, e) # c"
proof -
  from assms obtain p1 s1 c1 p2 s2 c2
    where 1: "(p1, s1, c1) \<in> set (rmatch (Group 7 (Star Dot)) (p, s, c))"
      and 2: "(p2, s2, c2) \<in> set (rmatch (lit ''-'') (p1, s1, c1))"
      and 3: "(p', s', c') \<in> set (rmatch (Group 8 (repeated 4 (Cls Digit))) (p2, s2, c2))"
    unfolding exp_NNNN_def mem_seqs_Cons mem_seqs_Nil by blast
  from mem_Star_Group [OF 1] obtain e where a: "s = e @ s1" "c1 = (7, e) # c"
    by blast
  from 2 have b: "s1 = ''-'' @ s2" "c2 = c1"
    unfolding mem_lit_src by simp_all
  from digits4_sound [OF 3] obtain n where d: "s2 = n @ s'" "c' = (8, n) # c2"
    by blast
  have "s = e @ ''-'' @ n @ s'"
    using a(1) b(1) d(1) by simp
  moreover have "c' = (8, n) # (7, e) # c"
    using a(2) b(2) d(2) by simp
  ultimately show ?thesis
    by blast
qed

lemma suffix_sound:
  assumes "(p', s', c') \<in> set (rmatch suffix (p, s, c))"
  shows "s' = [] \<and> c' = c"
  using assms unfolding suffix_def mem_unfold mem_Cls
  apply (elim exE conjE disjE)
  apply simp_all
  done

lemma TaskPattern_sound:
  assumes "(p', s', c') \<in> set (rmatch TaskPattern (p, s, c))"
  shows "p = 0 \<and> (\<exists>pre e dpath pdate t h pd ex n sfx.
           s = ''gs://'' @ pre @ ''/'' @ e @ ''/'' @ dpath @ ''/'' @ pdate @ ''T'' @ t @ ''Z''
               @ ''-'' @ h @ ''-'' @ pd @ ''-'' @ ex @ ''-'' @ n @ sfx
           \<and> is_date_path dpath \<and> is_packed_date pdate
           \<and> c' = [(8, n), (7, ex), (6, pd), (5, h), (4, pdate), (3, dpath), (2, e), (1, pre)] @ c)"
proof -
  from assms obtain p1 s1 c1 p2 s2 c2 p3 s3 c3 p4 s4 c4 p5 s5 c5
    where 1: "(p1, s1, c1) \<in> set (rmatch start (p, s, c))"
      and 2: "(p2, s2, c2) \<in> set (rmatch datePath (p1, s1, c1))"
      and 3: "(p3, s3, c3) \<in> set (rmatch dateTime (p2, s2, c2))"
      and 4: "(p4, s4, c4) \<in> set (rmatch mlabN_podNN (p3, s3, c3))"
      and 5: "(p5, s5, c5) \<in> set (rmatch exp_NNNN (p4, s4, c4))"
      and 6: "(p', s', c') \<in> set (rmatch suffix (p5, s5, c5))"
    unfolding TaskPattern_def mem_seqs_Cons mem_seqs_Nil by blast
  from start_sound [OF 1] obtain pre e where a: "p = 0"
    "s = ''gs://'' @ pre @ ''/'' @ e @ ''/'' @ s1" "c1 = (2, e) # (1, pre) # c"
    by blast
  from datePath_sound [OF 2] obtain dpath where b: "s1 = dpath @ ''/'' @ s2"
    "is_date_path dpath" "c2 = (3, dpath) # c1"
    by blast
  from dateTime_sound [OF 3] obtain pdate t where d: "s2 = pdate @ ''T'' @ t @ ''Z'' @ s3"
    "is_packed_date pdate" "c3 = (4, pdate) # c2"
    by blast
  from mlabN_podNN_sound [OF 4] obtain h pd where f: "s3 = ''-'' @ h @ ''-'' @ pd @ ''-'' @ s4"
    "c4 = (6, pd) # (5, h) # c3"
    by blast
  from exp_NNNN_sound [OF 5] obtain ex n where g: "s4 = ex @ ''-'' @ n @ s5"
    "c5 = (8, n) # (7, ex) # c4"
    by blast
  from suffix_sound [OF 6] have i: "c' = c5"
    by simp
  have "s = ''gs://'' @ pre @ ''/'' @ e @ ''/'' @ dpath @ ''/'' @ pdate @ ''T'' @ t @ ''Z''
               @ ''-'' @ h @ ''-'' @ pd @ ''-'' @ ex @ ''-'' @ n @ s5"
    by (simp add: a(2) b(1) d(1) f(1) g(1))
  moreover have "c' = [(8, n), (7, ex), (6, pd), (5, h), (4, pdate), (3, dpath), (2, e), (1, pre)] @ c"
    by (simp add: i g(2) f(2) d(3) b(3) a(3))
  ultimately show ?thesis
    using a(1) b(2) d(2) by blast
qed


lemma all_matches_mem:
  assumes "x \<in> set (all_matches re text)"
  shows "\<exists>i. x \<in> set (rmatch (Group 0 re) (i, drop i text, []))"
  using assms unfolding all_matches_def set_concat set_map by blast

lemma FindStringSubmatch_TaskPattern:
  assumes "FindStringSubmatch TaskPattern 8 u = Some flds"
  shows "\<exists>pre e dpath pdate t h pd ex n sfx.
           u = ''gs://'' @ pre @ ''/'' @ e @ ''/'' @ dpath @ ''/'' @ pdate @ ''T'' @ t @ ''Z''
               @ ''-'' @ h @ ''-'' @ pd @ ''-'' @ ex @ ''-'' @ n @ sfx
           \<and> is_date_path dpath \<and> is_packed_date pdate
           \<and> flds ! 2 = e \<and> flds ! 3 = dpath \<and> flds ! 4 = pdate \<and> flds ! 5 = h
           \<and> flds ! 6 = pd \<and> flds ! 7 = ex \<and> flds ! 8 = n"
proof -
  from assms obtain p' s' c' rest where am: "all_matches TaskPattern u = (p', s', c') # rest"
    and flds: "flds = map (\<lambda>k. case map_of c' k of None \<Rightarrow> [] | Some v \<Rightarrow> v) [0..<Suc 8]"
    unfolding FindStringSubmatch_def by (auto split: list.splits)
  have "(p', s', c') \<in> set (all_matches TaskPattern u)"
    by (simp add: am)
  then obtain i where "(p', s', c') \<in> set (rmatch (Group 0 TaskPattern) (i, drop i u, []))"
    using all_matches_mem by blast
  then obtain c0 where m: "(p', s', c0) \<in> set (rmatch TaskPattern (i, drop i u, []))"
    and c': "c' = (0, take (p' - i) (drop i u)) # c0"
    unfolding mem_Group by blast
  from TaskPattern_sound [OF m] obtain pre e dpath pdate t h pd ex n sfx
    where i: "i = 0"
      and u: "drop i u = ''gs://'' @ pre @ ''/'' @ e @ ''/'' @ dpath @ ''/'' @ pdate @ ''T'' @ t @ ''Z''
               @ ''-'' @ h @ ''-'' @ pd @ ''-'' @ ex @ ''-'' @ n @ sfx"
      and shapes: "is_date_path dpath" "is_packed_date pdate"
      and c0: "c0 = [(8, n), (7, ex), (6, pd), (5, h), (4, pdate), (3, dpath), (2, e), (1, pre)] @ []"
    by blast
  have nth: "flds ! k = (case map_of c' k of None \<Rightarrow> [] | Some v \<Rightarrow> v)" if "k < 9" for k
    using that unfolding flds by (simp only: nth_map_upt) simp
  have "flds ! 2 = e" "flds ! 3 = dpath" "flds ! 4 = pdate" "flds ! 5 = h"
    "flds ! 6 = pd" "flds ! 7 = ex" "flds ! 8 = n"
    by (simp_all add: nth c' c0)
  then show ?thesis
    using u shapes unfolding i by (simp only: drop_0) blast
qed

text \<open>
  C1 as the code has it.  Every accepted URI has the form
  \<open>gs://prefix/exp/datepath/packeddateThhmmssZ-host-pod-experiment-filenumber\<close> with a
  suffix, where \<open>DatePath\<close> is the path component of the shape \<open>dddd/[01]d/[0123]d\<close>
  and \<open>PackedDate\<close> the first eight characters of the timestamp token, of the shape
  \<open>dddd[01]d[0123]d\<close>.  The two are matched independently: the pattern does not
  relate the digits of the one to the digits of the other.
\<close>

theorem ValidateTestPath_date_fields:
  assumes "ValidateTestPath u = Inr dp"
  shows "\<exists>prefix hhmmss sfx.
           u = ''gs://'' @ prefix @ ''/'' @ Exp1 dp @ ''/'' @ DatePath dp @ ''/''
               @ PackedDate dp @ ''T'' @ hhmmss @ ''Z-'' @ Host dp @ ''-'' @ Pod dp @ ''-''
               @ Experiment dp @ ''-'' @ FileNumber dp @ sfx
           \<and> is_date_path (DatePath dp) \<and> is_packed_date (PackedDate dp)"
proof -
  from assms obtain flds where f: "FindStringSubmatch TaskPattern 8 u = Some flds"
    and dp: "dp = \<lparr>Exp1 = flds ! 2, DatePath = flds ! 3, PackedDate = flds ! 4,
               Host = flds ! 5, Pod = flds ! 6, Experiment = flds ! 7, FileNumber = flds ! 8\<rparr>"
    unfolding ValidateTestPath_def by (auto split: option.splits if_splits)
  from FindStringSubmatch_TaskPattern [OF f] obtain pre e dpath pdate t h pd ex n sfx
    where u: "u = ''gs://'' @ pre @ ''/'' @ e @ ''/'' @ dpath @ ''/'' @ pdate @ ''T'' @ t @ ''Z''
               @ ''-'' @ h @ ''-'' @ pd @ ''-'' @ ex @ ''-'' @ n @ sfx"
      and shapes: "is_date_path dpath" "is_packed_date pdate"
      and fl: "flds ! 2 = e" "flds ! 3 = dpath" "flds ! 4 = pdate" "flds ! 5 = h"
        "flds ! 6 = pd" "flds ! 7 = ex" "flds ! 8 = n"
    by blast
  have "u = ''gs://'' @ pre @ ''/'' @ Exp1 dp @ ''/'' @ DatePath dp @ ''/''
               @ PackedDate dp @ ''T'' @ t @ ''Z-'' @ Host dp @ ''-'' @ Pod dp @ ''-''
               @ Experiment dp @ ''-'' @ FileNumber dp @ sfx"
    by (simp add: dp fl u)
  moreover have "is_date_path (DatePath dp)" "is_packed_date (PackedDate dp)"
    using shapes by (simp_all add: dp fl)
  ultimately show ?thesis
    by blast
qed

theorem ValidateTestPath_date_fields_witness:
  "ValidateTestPath ''gs://m-lab-sandbox/ndt/2016/01/26/20160126T000000Z-mlab1-prg01-ndt-0007.tgz''
     = Inr \<lparr>Exp1 = ''ndt'', DatePath = ''2016/01/26'', PackedDate = ''20160126'',
            Host = ''mlab1'', Pod = ''prg01'', Experiment = ''ndt'', FileNumber = ''0007''\<rparr>
   \<and> (\<exists>prefix hhmmss sfx.
         ''gs://m-lab-sandbox/ndt/2016/01/26/20160126T000000Z-mlab1-prg01-ndt-0007.tgz''
           = ''gs://'' @ prefix @ ''/'' @ ''ndt'' @ ''/'' @ ''2016/01/26'' @ ''/''
             @ ''20160126'' @ ''T'' @ hhmmss @ ''Z-'' @ ''mlab1'' @ ''-'' @ ''prg01'' @ ''-''
             @ ''ndt'' @ ''-'' @ ''0007'' @ sfx
         \<and> is_date_path ''2016/01/26'' \<and> is_packed_date ''20160126'')"
proof -
  let ?u = "''gs://m-lab-sandbox/ndt/2016/01/26/20160126T000000Z-mlab1-prg01-ndt-0007.tgz''"
  let ?dp = "\<lparr>Exp1 = ''ndt'', DatePath = ''2016/01/26'', PackedDate = ''20160126'',
            Host = ''mlab1'', Pod = ''prg01'', Experiment = ''ndt'', FileNumber = ''0007''\<rparr>"
  have v: "ValidateTestPath ?u = Inr ?dp"
    by code_simp
  have sel: "Exp1 ?dp = ''ndt''" "DatePath ?dp = ''2016/01/26''" "PackedDate ?dp = ''20160126''"
    "Host ?dp = ''mlab1''" "Pod ?dp = ''prg01''" "Experiment ?dp = ''ndt''"
    "FileNumber ?dp = ''0007''"
    by simp_all
  note concl = ValidateTestPath_date_fields [OF v, unfolded sel]
  show ?thesis
    by (intro conjI v concl)
qed

text \<open>
  C1 as stated fails: a URI whose date path is 2016/01/26 and whose timestamp is of
  2017-02-03 is accepted, with both kept as they are.
\<close>

theorem ValidateTestPath_dates_counterexample:
  "ValidateTestPath ''gs://m-lab-sandbox/ndt/2016/01/26/20170203T000000Z-mlab1-prg01-ndt-0007.tgz''
     = Inr \<lparr>Exp1 = ''ndt'', DatePath = ''2016/01/26'', PackedDate = ''20170203'',
            Host = ''mlab1'', Pod = ''prg01'', Experiment = ''ndt'', FileNumber = ''0007''\<rparr>
   \<and> packed_of_date_path ''2016/01/26'' = ''20160126''
   \<and> ''20170203'' \<noteq> packed_of_date_path ''2016/01/26''"
  by code_simp


text \<open>
  The dot of \<open>\.tar.gz\<close> is not escaped and stands for any one rune: a URI that ends in
  \<open>.tar\<close>, the three bytes E2 82 AC of the rune U+20AC and \<open>gz\<close> is accepted, while the
  same URI with the first two of these bytes only, which are two runes, is not.
\<close>

lemma DecodeRuneInString_three_bytes:
  "DecodeRuneInString ([CHR 0xE2, CHR 0x82, CHR 0xAC] @ ''gz'') = (0x20AC, 3)
   \<and> DecodeRuneInString ([CHR 0xE2, CHR 0x82] @ ''gz'') = (RuneError, 1)"
  by code_simp

lemma ValidateTestPath_suffix_dot_is_a_rune:
  "ValidateTestPath
     (''gs://m-lab-sandbox/ndt/2016/01/26/20160126T000000Z-mlab1-prg01-ndt-0007.tar''
        @ [CHR 0xE2, CHR 0x82, CHR 0xAC] @ ''gz'')
     = Inr \<lparr>Exp1 = ''ndt'', DatePath = ''2016/01/26'', PackedDate = ''20160126'',
            Host = ''mlab1'', Pod = ''prg01'', Experiment = ''ndt'', FileNumber = ''0007''\<rparr>
   \<and> ValidateTestPath
     (''gs://m-lab-sandbox/ndt/2016/01/26/20160126T000000Z-mlab1-prg01-ndt-0007.tar''
        @ [CHR 0xE2, CHR 0x82] @ ''gz'')
     = Inl (''Path should end in .tar, .tgz, or .tar.gz: ''
            @ ''gs://m-lab-sandbox/ndt/2016/01/26/20160126T000000Z-mlab1-prg01-ndt-0007.tar''
            @ [CHR 0xE2, CHR 0x82] @ ''gz'')"
  by code_simp


end
